theory Spec2Isabelle
  imports Complex_Main
begin

section \<open>The signal listener of signal.c (kqueue backend)\<close>

text \<open>
  The listener keeps three signal sets (desired, polling, pending) beside the descriptor
  of a kernel event queue. The C code mutates a \<^verbatim>\<open>struct signalfd\<close> in place and talks
  to the kernel through \<^verbatim>\<open>kqueue\<close>, \<^verbatim>\<open>kevent\<close> and \<^verbatim>\<open>close\<close>; the model passes the
  struct and a world (the kernel's answers and the log of the calls made) explicitly.
\<close>

subsection \<open>Signal sets\<close>

text \<open>
  Modelled from the spec: \<^verbatim>\<open>sigset_t\<close> and its operations, which belong to the C library
  and not to signal.c. A signal set is a set over the signal numbers \<open>1..maxsig\<close>, where
  \<open>maxsig\<close> is the platform's largest signal number (a parameter of every function
  here), with a membership test, add and remove. For a number outside \<open>1..maxsig\<close> the
  library's \<^verbatim>\<open>sigaddset\<close> and \<^verbatim>\<open>sigdelset\<close> fail and leave the set as it is, and
  \<^verbatim>\<open>sigismember\<close> returns \<open>-1\<close>; signal.c ignores the results of \<^verbatim>\<open>sigaddset\<close> and
  \<^verbatim>\<open>sigdelset\<close>.
\<close>

type_synonym sigset = "int set"

definition valid_signo :: "int \<Rightarrow> int \<Rightarrow> bool" where
  "valid_signo maxsig signo \<longleftrightarrow> 1 \<le> signo \<and> signo \<le> maxsig"

definition sigemptyset :: sigset where
  "sigemptyset = {}"

definition sigaddset :: "int \<Rightarrow> sigset \<Rightarrow> int \<Rightarrow> sigset" where
  "sigaddset maxsig s signo = (if valid_signo maxsig signo then insert signo s else s)"

definition sigdelset :: "int \<Rightarrow> sigset \<Rightarrow> int \<Rightarrow> sigset" where
  "sigdelset maxsig s signo = (if valid_signo maxsig signo then s - {signo} else s)"

definition sigismember :: "int \<Rightarrow> sigset \<Rightarrow> int \<Rightarrow> int" where
  "sigismember maxsig s signo =
     (if valid_signo maxsig signo then (if signo \<in> s then 1 else 0) else - 1)"

subsection \<open>The difference scan\<close>

text \<open>
  \<^verbatim>\<open>for (int signo = 1; signo < 32; signo++)
    if (!!sigismember(a, signo) ^ !!sigismember(b, signo)) return signo;
  return 0;\<close>
  The loop is the recursion \<open>sfd_diff_from\<close> on the loop counter; \<open>sfd_diff\<close> starts it
  at 1.
\<close>

function sfd_diff_from :: "int \<Rightarrow> sigset \<Rightarrow> sigset \<Rightarrow> int \<Rightarrow> int" where
  "sfd_diff_from maxsig a b signo =
     (if signo < 32 then
        (if (sigismember maxsig a signo \<noteq> 0) \<noteq> (sigismember maxsig b signo \<noteq> 0) then signo
         else sfd_diff_from maxsig a b (signo + 1))
      else 0)"
  by pat_completeness auto
termination
  by (relation "measure (\<lambda>(maxsig, a, b, signo). nat (32 - signo))") auto

declare sfd_diff_from.simps [simp del]

definition sfd_diff :: "int \<Rightarrow> sigset \<Rightarrow> sigset \<Rightarrow> int" where
  "sfd_diff maxsig a b = sfd_diff_from maxsig a b 1"

text \<open>The signal numbers the scan can tell apart: valid ones below 32.\<close>

definition scanned :: "int \<Rightarrow> int set" where
  "scanned maxsig = {signo. 1 \<le> signo \<and> signo < 32 \<and> signo \<le> maxsig}"

lemma scanned_code [code]: "scanned maxsig = {1..min 31 maxsig}"
  by (auto simp: scanned_def)

subsection \<open>The kernel\<close>

text \<open>
  Every system call is appended to the log, and its outcome is what the kernel's oracle
  says at that moment (the number of calls made so far). An outcome has the call's return
  value, the value of \<^verbatim>\<open>errno\<close> after it, and the event \<^verbatim>\<open>kevent\<close> stored in the
  caller's buffer (its filter and its ident, the ident as the int that \<^verbatim>\<open>sigaddset\<close> is
  given); each call site reads the fields the C code reads. \<^verbatim>\<open>EINTR\<close> and
  \<^verbatim>\<open>EVFILT_SIGNAL\<close> are constants of the system headers, with the values of the BSDs.
\<close>

datatype syscall =
    SYS_kqueue
  | SYS_close int
  | SYS_kevent_add int int
  | SYS_kevent_delete int int
  | SYS_kevent_poll int

record sysret =
  ret :: int
  errno :: int
  ev_filter :: int
  ev_ident :: int

record world =
  kernel :: "nat \<Rightarrow> sysret"
  calls :: "syscall list"

definition do_syscall :: "syscall \<Rightarrow> world \<Rightarrow> sysret \<times> world" where
  "do_syscall c w = (kernel w (length (calls w)), w\<lparr>calls := calls w @ [c]\<rparr>)"

definition EINTR :: int where
  "EINTR = 4"

definition EVFILT_SIGNAL :: int where
  "EVFILT_SIGNAL = - 6"

subsection \<open>The listener\<close>

record signalfd =
  fd :: int
  desired :: sigset
  polling :: sigset
  pending :: sigset

definition sfd_preinit :: "signalfd \<Rightarrow> signalfd" where
  "sfd_preinit S = S\<lparr>fd := - 1, desired := sigemptyset, polling := sigemptyset,
     pending := sigemptyset\<rparr>"

text \<open>\<^verbatim>\<open>if (-1 == (S->fd = kqueue())) return errno; return 0;\<close>\<close>

definition sfd_init :: "signalfd \<Rightarrow> world \<Rightarrow> int \<times> signalfd \<times> world" where
  "sfd_init S w =
     (let (r, w') = do_syscall SYS_kqueue w;
          S' = S\<lparr>fd := ret r\<rparr>
      in if ret r = - 1 then (errno r, S', w') else (0, S', w'))"

definition sfd_destroy :: "signalfd \<Rightarrow> world \<Rightarrow> signalfd \<times> world" where
  "sfd_destroy S w =
     (let (r, w') = do_syscall (SYS_close (fd S)) w
      in (sfd_preinit S, w'))"

subsection \<open>Facts about the difference scan\<close>

text \<open>Signal \<open>signo\<close> is one the library accepts and the two sets disagree on it.\<close>

definition differs :: "int \<Rightarrow> sigset \<Rightarrow> sigset \<Rightarrow> int \<Rightarrow> bool" where
  "differs maxsig a b signo \<longleftrightarrow> valid_signo maxsig signo \<and> (signo \<in> a) \<noteq> (signo \<in> b)"

lemma sigismember_differs:
  "((sigismember maxsig a signo \<noteq> 0) \<noteq> (sigismember maxsig b signo \<noteq> 0))
     \<longleftrightarrow> differs maxsig a b signo"
  by (simp add: sigismember_def differs_def)

lemma sfd_diff_from_unfold:
  "sfd_diff_from maxsig a b i =
     (if i < 32 then (if differs maxsig a b i then i else sfd_diff_from maxsig a b (i + 1))
      else 0)"
  by (subst sfd_diff_from.simps) (simp only: sigismember_differs)

lemma sfd_diff_from_zero:
  "sfd_diff_from maxsig a b i = 0 \<longleftrightarrow> (\<forall>s. i \<le> s \<and> s < 32 \<longrightarrow> \<not> differs maxsig a b s)"
proof (induction maxsig a b i rule: sfd_diff_from.induct)
  case (1 maxsig a b signo)
  show ?case
  proof (cases "signo < 32")
    case False
    then show ?thesis by (subst sfd_diff_from_unfold) auto
  next
    case lt: True
    show ?thesis
    proof (cases "differs maxsig a b signo")
      case True
      with lt have "sfd_diff_from maxsig a b signo = signo"
        by (subst sfd_diff_from_unfold) simp
      moreover from True have "signo \<noteq> 0" by (auto simp: differs_def valid_signo_def)
      ultimately show ?thesis using True lt by auto
    next
      case False
      then have nd: "\<not> (sigismember maxsig a signo \<noteq> 0) \<noteq> (sigismember maxsig b signo \<noteq> 0)"
        by (simp only: sigismember_differs not_False_eq_True)
      have ih: "sfd_diff_from maxsig a b (signo + 1) = 0 \<longleftrightarrow>
          (\<forall>s. signo + 1 \<le> s \<and> s < 32 \<longrightarrow> \<not> differs maxsig a b s)"
        by (rule "1.IH" [OF lt nd])
      have step: "sfd_diff_from maxsig a b signo = sfd_diff_from maxsig a b (signo + 1)"
        using False lt by (subst sfd_diff_from_unfold) simp
      have "\<And>s. signo \<le> s \<longleftrightarrow> s = signo \<or> signo + 1 \<le> s" by arith
      with False have "(\<forall>s. signo \<le> s \<and> s < 32 \<longrightarrow> \<not> differs maxsig a b s)
          \<longleftrightarrow> (\<forall>s. signo + 1 \<le> s \<and> s < 32 \<longrightarrow> \<not> differs maxsig a b s)"
        by metis
      with ih step show ?thesis by simp
    qed
  qed
qed

lemma sfd_diff_from_found:
  "sfd_diff_from maxsig a b i = s \<Longrightarrow> s \<noteq> 0 \<Longrightarrow>
     i \<le> s \<and> s < 32 \<and> differs maxsig a b s \<and> (\<forall>t. i \<le> t \<and> t < s \<longrightarrow> \<not> differs maxsig a b t)"
proof (induction maxsig a b i rule: sfd_diff_from.induct)
  case (1 maxsig a b signo)
  have lt: "signo < 32"
  proof (rule ccontr)
    assume "\<not> signo < 32"
    then have "sfd_diff_from maxsig a b signo = 0" by (subst sfd_diff_from_unfold) simp
    with "1.prems" show False by simp
  qed
  show ?case
  proof (cases "differs maxsig a b signo")
    case True
    with lt have "sfd_diff_from maxsig a b signo = signo"
      by (subst sfd_diff_from_unfold) simp
    with True lt "1.prems" show ?thesis by auto
  next
    case False
    have "sfd_diff_from maxsig a b signo = sfd_diff_from maxsig a b (signo + 1)"
      using False lt by (subst sfd_diff_from_unfold) simp
    with "1.prems"(1) have step: "sfd_diff_from maxsig a b (signo + 1) = s" by simp
    have nd: "\<not> (sigismember maxsig a signo \<noteq> 0) \<noteq> (sigismember maxsig b signo \<noteq> 0)"
      using False by (simp only: sigismember_differs not_False_eq_True)
    have ih: "signo + 1 \<le> s \<and> s < 32 \<and> differs maxsig a b s \<and>
       (\<forall>t. signo + 1 \<le> t \<and> t < s \<longrightarrow> \<not> differs maxsig a b t)"
      by (rule "1.IH" [OF lt nd step \<open>s \<noteq> 0\<close>])
    have split: "\<And>t. signo \<le> t \<longleftrightarrow> t = signo \<or> signo + 1 \<le> t" by arith
    from ih have "signo \<le> s" by arith
    moreover have "\<forall>t. signo \<le> t \<and> t < s \<longrightarrow> \<not> differs maxsig a b t"
      using ih False split by metis
    ultimately show ?thesis using ih by blast
  qed
qed


lemma scanned_finite: "finite (scanned maxsig)"
proof -
  have "scanned maxsig \<subseteq> {1..31}" by (auto simp: scanned_def)
  then show ?thesis by (rule finite_subset) simp
qed

lemma differs_scanned:
  "s < 32 \<and> differs maxsig a b s \<longleftrightarrow> s \<in> scanned maxsig \<and> (s \<in> a) \<noteq> (s \<in> b)"
  by (auto simp: differs_def scanned_def valid_signo_def)

lemma sfd_diff_zero: "sfd_diff maxsig a b = 0 \<longleftrightarrow> a \<inter> scanned maxsig = b \<inter> scanned maxsig"
proof -
  have "sfd_diff maxsig a b = 0 \<longleftrightarrow> (\<forall>s. 1 \<le> s \<and> s < 32 \<longrightarrow> \<not> differs maxsig a b s)"
    by (simp add: sfd_diff_def sfd_diff_from_zero)
  also have "\<dots> \<longleftrightarrow> (\<forall>s\<in>scanned maxsig. (s \<in> a) = (s \<in> b))"
    by (auto simp: differs_def scanned_def valid_signo_def)
  also have "\<dots> \<longleftrightarrow> a \<inter> scanned maxsig = b \<inter> scanned maxsig"
    by blast
  finally show ?thesis .
qed

lemma sfd_diff_found:
  assumes "sfd_diff maxsig a b = s" and "s \<noteq> 0"
  shows "s \<in> scanned maxsig" and "(s \<in> a) \<noteq> (s \<in> b)"
    and "\<And>t. t \<in> scanned maxsig \<Longrightarrow> t < s \<Longrightarrow> (t \<in> a) = (t \<in> b)"
proof -
  from assms have f: "1 \<le> s \<and> s < 32 \<and> differs maxsig a b s \<and>
      (\<forall>t. 1 \<le> t \<and> t < s \<longrightarrow> \<not> differs maxsig a b t)"
    unfolding sfd_diff_def by (rule sfd_diff_from_found)
  then show "s \<in> scanned maxsig" and "(s \<in> a) \<noteq> (s \<in> b)"
    by (auto simp: differs_def scanned_def valid_signo_def)
  fix t assume "t \<in> scanned maxsig" and "t < s"
  with f show "(t \<in> a) = (t \<in> b)"
    by (auto simp: differs_def scanned_def valid_signo_def)
qed

definition divergence :: "int \<Rightarrow> signalfd \<Rightarrow> nat" where
  "divergence maxsig S = card {s \<in> scanned maxsig. (s \<in> desired S) \<noteq> (s \<in> polling S)}"

lemma divergence_step:
  assumes "s \<in> scanned maxsig" and "(s \<in> desired S) \<noteq> (s \<in> polling S)"
    and "polling S' = (if s \<in> desired S then insert s (polling S) else polling S - {s})"
    and "desired S' = desired S"
  shows "divergence maxsig S' < divergence maxsig S"
proof -
  let ?D = "{t \<in> scanned maxsig. (t \<in> desired S) \<noteq> (t \<in> polling S)}"
  let ?D' = "{t \<in> scanned maxsig. (t \<in> desired S') \<noteq> (t \<in> polling S')}"
  have fin: "finite ?D" using scanned_finite by simp
  have "?D' \<subseteq> ?D - {s}" using assms by (auto split: if_splits)
  moreover have "s \<in> ?D" using assms by simp
  ultimately have "?D' \<subset> ?D" by blast
  with fin show ?thesis unfolding divergence_def by (rule psubset_card_mono)
qed

lemma sfd_update_round:
  assumes "sfd_diff maxsig (desired S) (polling S) = s" and "s \<noteq> 0"
  shows "s \<in> scanned maxsig" and "valid_signo maxsig s"
    and "(sigismember maxsig (desired S) s \<noteq> 0) = (s \<in> desired S)"
    and "(s \<in> desired S) \<noteq> (s \<in> polling S)"
proof -
  show sc: "s \<in> scanned maxsig" using assms by (rule sfd_diff_found)
  then show v: "valid_signo maxsig s" by (simp add: scanned_def valid_signo_def)
  then show "(sigismember maxsig (desired S) s \<noteq> 0) = (s \<in> desired S)"
    by (simp add: sigismember_def)
  show "(s \<in> desired S) \<noteq> (s \<in> polling S)" using assms by (rule sfd_diff_found)
qed



subsection \<open>Reconciliation\<close>

text \<open>
  The reconciliation loop. Each round asks the scan for the lowest signal on which
  desired and polling differ, and adds it to the kernel queue or deletes it; a failing
  \<^verbatim>\<open>kevent\<close> ends the loop with \<^verbatim>\<open>errno\<close>, leaving polling as far as it got.
\<close>

function sfd_update :: "int \<Rightarrow> signalfd \<Rightarrow> world \<Rightarrow> int \<times> signalfd \<times> world" where
  "sfd_update maxsig S w =
     (let signo = sfd_diff maxsig (desired S) (polling S) in
      if signo \<noteq> 0 then
        (if sigismember maxsig (desired S) signo \<noteq> 0 then
           (let (r, w') = do_syscall (SYS_kevent_add (fd S) signo) w in
            if 0 \<noteq> ret r then (errno r, S, w')
            else sfd_update maxsig (S\<lparr>polling := sigaddset maxsig (polling S) signo\<rparr>) w')
         else
           (let (r, w') = do_syscall (SYS_kevent_delete (fd S) signo) w in
            if 0 \<noteq> ret r then (errno r, S, w')
            else sfd_update maxsig (S\<lparr>polling := sigdelset maxsig (polling S) signo\<rparr>) w'))
      else (0, S, w))"
  by pat_completeness auto
termination sfd_update
proof (relation "measure (\<lambda>(maxsig, S, w). divergence maxsig S)", goal_cases)
  case 1
  show ?case by simp
next
  case (2 maxsig S w signo p r w')
  have "divergence maxsig (S\<lparr>polling := sigaddset maxsig (polling S) signo\<rparr>) < divergence maxsig S"
  proof (rule divergence_step)
    show "signo \<in> scanned maxsig" using 2(1,2) sfd_update_round(1) by blast
    show "(signo \<in> desired S) \<noteq> (signo \<in> polling S)" using 2(1,2) sfd_update_round(4) by blast
    show "polling (S\<lparr>polling := sigaddset maxsig (polling S) signo\<rparr>) =
        (if signo \<in> desired S then insert signo (polling S) else polling S - {signo})"
      using 2(1,2,3) sfd_update_round(2,3) [of maxsig S signo] by (simp add: sigaddset_def)
  qed simp
  then show ?case by simp
next
  case (3 maxsig S w signo p r w')
  have "divergence maxsig (S\<lparr>polling := sigdelset maxsig (polling S) signo\<rparr>) < divergence maxsig S"
  proof (rule divergence_step)
    show "signo \<in> scanned maxsig" using 3(1,2) sfd_update_round(1) by blast
    show "(signo \<in> desired S) \<noteq> (signo \<in> polling S)" using 3(1,2) sfd_update_round(4) by blast
    show "polling (S\<lparr>polling := sigdelset maxsig (polling S) signo\<rparr>) =
        (if signo \<in> desired S then insert signo (polling S) else polling S - {signo})"
      using 3(1,2,3) sfd_update_round(2,3) [of maxsig S signo] by (simp add: sigdelset_def)
  qed simp
  then show ?case by simp
qed

subsection \<open>Draining the kernel queue\<close>

text \<open>
  One poll with a zero timeout for at most one event. A signal event moves its signal
  from polling to pending; \<^verbatim>\<open>EINTR\<close> jumps back to \<^verbatim>\<open>retry\<close>; any other failure
  returns \<^verbatim>\<open>errno\<close>; every other path ends in \<open>sfd_update\<close>. The retry has no bound, so
  the function is partial: \<open>None\<close> is a call that never returns.
\<close>

partial_function (option) sfd_query ::
  "int \<Rightarrow> signalfd \<Rightarrow> world \<Rightarrow> (int \<times> signalfd \<times> world) option" where
  "sfd_query maxsig S w =
     (let (r, w') = do_syscall (SYS_kevent_poll (fd S)) w in
      if 1 = ret r then
        (if ev_filter r = EVFILT_SIGNAL then
           Some (sfd_update maxsig
             (S\<lparr>pending := sigaddset maxsig (pending S) (ev_ident r),
                polling := sigdelset maxsig (polling S) (ev_ident r)\<rparr>) w')
         else Some (sfd_update maxsig S w'))
      else if ret r = - 1 then
        (if errno r = EINTR then sfd_query maxsig S w' else Some (errno r, S, w'))
      else Some (sfd_update maxsig S w'))"

declare sfd_query.simps [code]

subsection \<open>The Lua entry points\<close>

text \<open>
  A Lua argument is a number, which \<^verbatim>\<open>luaL_checkint\<close> converts to a C int, or something
  else, on which \<^verbatim>\<open>luaL_checkint\<close> raises. A Lua error is a value: the argument that was
  refused, or the \<^verbatim>\<open>errno\<close> whose message \<^verbatim>\<open>luaL_error\<close> carries. The methods are given
  the struct of a listener: the check of \<^verbatim>\<open>luaL_checkudata\<close> is their argument's type.
\<close>

datatype lua_value = LNumber int | LOther

datatype lua_error = ArgError nat | ListenError int | WaitError int

fun luaL_checkint :: "lua_value \<Rightarrow> int option" where
  "luaL_checkint (LNumber n) = Some n"
| "luaL_checkint LOther = None"

definition LSL_CLASS :: string where
  "LSL_CLASS = ''Signal Listener''"

text \<open>
  The userdata \<^verbatim>\<open>lua_newuserdata\<close> allocates: the struct and the metatable it has been
  given, if any. The garbage collector runs \<open>lsl__gc\<close> on a userdata that has the
  listener's metatable. Fresh memory holds anything; \<open>sfd_preinit\<close> overwrites every field.
\<close>

record userdata =
  udata :: signalfd
  metatable :: "string option"

definition lua_newuserdata :: signalfd where
  "lua_newuserdata = \<lparr>fd = 0, desired = {}, polling = {}, pending = {}\<rparr>"

text \<open>
  \<^verbatim>\<open>for (index = 1; index <= lua_gettop(L) - 1; index++)
    sigaddset(&S->desired, luaL_checkint(L, index));\<close>
  The userdata is on top of the stack, so the loop visits every argument.
\<close>

fun lsl_listen_args ::
  "int \<Rightarrow> lua_value list \<Rightarrow> nat \<Rightarrow> signalfd \<Rightarrow> lua_error option \<times> signalfd" where
  "lsl_listen_args maxsig [] index S = (None, S)"
| "lsl_listen_args maxsig (v # vs) index S =
     (case luaL_checkint v of
        None \<Rightarrow> (Some (ArgError index), S)
      | Some signo \<Rightarrow>
          lsl_listen_args maxsig vs (index + 1)
            (S\<lparr>desired := sigaddset maxsig (desired S) signo\<rparr>))"

text \<open>
  The result is the Lua error raised or the number of values returned, the userdata as
  the call leaves it in the Lua heap, and the world.
\<close>

definition lsl_listen ::
  "int \<Rightarrow> lua_value list \<Rightarrow> world \<Rightarrow> (lua_error + nat) \<times> userdata \<times> world" where
  "lsl_listen maxsig args w =
     (let S = sfd_preinit lua_newuserdata in
      case lsl_listen_args maxsig args 1 S of
        (Some e, S1) \<Rightarrow> (Inl e, \<lparr>udata = S1, metatable = None\<rparr>, w)
      | (None, S1) \<Rightarrow>
          (let (error, S2, w2) = sfd_init S1 w in
           if error \<noteq> 0
           then (Inl (ListenError error), \<lparr>udata = S2, metatable = Some LSL_CLASS\<rparr>, w2)
           else
             (let (error, S3, w3) = sfd_update maxsig S2 w2 in
              if error \<noteq> 0
              then (Inl (ListenError error), \<lparr>udata = S3, metatable = Some LSL_CLASS\<rparr>, w3)
              else (Inr 1, \<lparr>udata = S3, metatable = Some LSL_CLASS\<rparr>, w3))))"

definition lsl__gc :: "signalfd \<Rightarrow> world \<Rightarrow> signalfd \<times> world" where
  "lsl__gc S w = sfd_destroy S w"

text \<open>
  \<open>lsl_wait\<close> returns the signal it pushed (\<open>Some signo\<close>) or nothing (\<open>None\<close>), or
  raises the error of \<open>sfd_query\<close>.
\<close>

definition lsl_wait ::
  "int \<Rightarrow> signalfd \<Rightarrow> world \<Rightarrow> ((lua_error + int option) \<times> signalfd \<times> world) option" where
  "lsl_wait maxsig S w =
     (case sfd_query maxsig S w of
        None \<Rightarrow> None
      | Some (error, S1, w1) \<Rightarrow>
          if error \<noteq> 0 then Some (Inl (WaitError error), S1, w1)
          else
            (let none = sigemptyset;
                 signo = sfd_diff maxsig (pending S1) none
             in if signo \<noteq> 0
                then Some (Inr (Some signo),
                       S1\<lparr>pending := sigdelset maxsig (pending S1) signo\<rparr>, w1)
                else Some (Inr None, S1, w1)))"

definition lsl_pollfd :: "signalfd \<Rightarrow> int" where
  "lsl_pollfd S = fd S"

text \<open>\<open>lsl_timeout\<close> pushes the number 0.0 (\<open>Some 0\<close>) or nil (\<open>None\<close>).\<close>

definition lsl_timeout :: "int \<Rightarrow> signalfd \<Rightarrow> real option" where
  "lsl_timeout maxsig S =
     (let none = sigemptyset in
      if sfd_diff maxsig (pending S) none \<noteq> 0 then Some 0.0 else None)"

subsection \<open>Runs of the kernel, and facts about reconciliation\<close>

text \<open>
  The run of a world pairs every call of the log with the kernel's answer to it. A call
  has failed when its return value is the one the C code takes for a failure at that call
  site. POSIX error numbers are positive: \<open>errno_set\<close> says that every failed call of
  the run left a nonzero \<^verbatim>\<open>errno\<close>, so that a function that returns \<^verbatim>\<open>errno\<close> returns 0
  only when nothing failed.
\<close>

fun failed :: "syscall \<Rightarrow> sysret \<Rightarrow> bool" where
  "failed SYS_kqueue r = (ret r = - 1)"
| "failed (SYS_close d) r = (ret r = - 1)"
| "failed (SYS_kevent_add d signo) r = (ret r \<noteq> 0)"
| "failed (SYS_kevent_delete d signo) r = (ret r \<noteq> 0)"
| "failed (SYS_kevent_poll d) r = (ret r = - 1)"

definition run :: "world \<Rightarrow> (syscall \<times> sysret) list" where
  "run w = zip (calls w) (map (kernel w) [0..<length (calls w)])"

definition errno_set :: "world \<Rightarrow> bool" where
  "errno_set w \<longleftrightarrow> (\<forall>(c, r)\<in>set (run w). failed c r \<longrightarrow> errno r \<noteq> 0)"

text \<open>
  The world after a call, and the call and the state of one round of \<open>sfd_update\<close> on
  signal \<open>s\<close>.
\<close>

definition issue :: "syscall \<Rightarrow> world \<Rightarrow> world" where
  "issue c w = w\<lparr>calls := calls w @ [c]\<rparr>"

definition round_call :: "signalfd \<Rightarrow> int \<Rightarrow> syscall" where
  "round_call S s = (if s \<in> desired S then SYS_kevent_add (fd S) s else SYS_kevent_delete (fd S) s)"

definition round_state :: "signalfd \<Rightarrow> int \<Rightarrow> signalfd" where
  "round_state S s = S\<lparr>polling := (if s \<in> desired S then insert s (polling S) else polling S - {s})\<rparr>"

lemma do_syscall_issue: "do_syscall c w = (kernel w (length (calls w)), issue c w)"
  by (simp add: do_syscall_def issue_def)

lemma run_issue: "run (issue c w) = run w @ [(c, kernel w (length (calls w)))]"
  by (simp add: run_def issue_def)

lemma issue_simps [simp]:
  "kernel (issue c w) = kernel w" "calls (issue c w) = calls w @ [c]"
  by (simp_all add: issue_def)

lemma round_state_simps [simp]:
  "fd (round_state S s) = fd S" "desired (round_state S s) = desired S"
  "pending (round_state S s) = pending S"
  by (simp_all add: round_state_def)

lemma sfd_update_unfold:
  "sfd_update maxsig S w =
     (let s = sfd_diff maxsig (desired S) (polling S) in
      if s = 0 then (0, S, w)
      else if ret (kernel w (length (calls w))) \<noteq> 0
        then (errno (kernel w (length (calls w))), S, issue (round_call S s) w)
        else sfd_update maxsig (round_state S s) (issue (round_call S s) w))"
proof (cases "sfd_diff maxsig (desired S) (polling S) = 0")
  case True
  then show ?thesis by (subst sfd_update.simps) simp
next
  case False
  note r = sfd_update_round [OF refl False]
  show ?thesis
    using False r(2,3)
    by (subst sfd_update.simps)
      (auto simp: Let_def do_syscall_issue round_call_def round_state_def sigaddset_def sigdelset_def)
qed

lemma sfd_update_induct [case_names round]:
  assumes "\<And>maxsig S w. (\<And>s. s = sfd_diff maxsig (desired S) (polling S) \<Longrightarrow> s \<noteq> 0 \<Longrightarrow>
              ret (kernel w (length (calls w))) = 0 \<Longrightarrow>
              P maxsig (round_state S s) (issue (round_call S s) w)) \<Longrightarrow> P maxsig S w"
  shows "P maxsig S w"
proof (induction maxsig S w rule: sfd_update.induct)
  case (1 maxsig S w)
  show ?case
  proof (rule assms)
    fix s
    assume s: "s = sfd_diff maxsig (desired S) (polling S)" and nz: "s \<noteq> 0"
      and ok: "ret (kernel w (length (calls w))) = 0"
    note r = sfd_update_round [OF s [symmetric] nz]
    show "P maxsig (round_state S s) (issue (round_call S s) w)"
    proof (cases "s \<in> desired S")
      case True
      with r have m: "sigismember maxsig (desired S) s \<noteq> 0" by simp
      have "P maxsig (S\<lparr>polling := sigaddset maxsig (polling S) s\<rparr>) (issue (SYS_kevent_add (fd S) s) w)"
        by (rule "1.IH"(1) [OF s nz m refl do_syscall_issue [symmetric]]) (simp add: ok)
      with True r(2) show ?thesis by (simp add: round_state_def round_call_def sigaddset_def)
    next
      case False
      with r have m: "\<not> sigismember maxsig (desired S) s \<noteq> 0" by simp
      have "P maxsig (S\<lparr>polling := sigdelset maxsig (polling S) s\<rparr>) (issue (SYS_kevent_delete (fd S) s) w)"
        by (rule "1.IH"(2) [OF s nz m refl do_syscall_issue [symmetric]]) (simp add: ok)
      with False r(2) show ?thesis by (simp add: round_state_def round_call_def sigdelset_def)
    qed
  qed
qed


lemma sfd_update_cases [consumes 1, case_names none fail step]:
  assumes "sfd_update maxsig S w = (e, S', w')"
  obtains
    (none) "sfd_diff maxsig (desired S) (polling S) = 0" "e = 0" "S' = S" "w' = w"
  | (fail) s where "s = sfd_diff maxsig (desired S) (polling S)" "s \<noteq> 0"
      "ret (kernel w (length (calls w))) \<noteq> 0" "e = errno (kernel w (length (calls w)))"
      "S' = S" "w' = issue (round_call S s) w"
  | (step) s where "s = sfd_diff maxsig (desired S) (polling S)" "s \<noteq> 0"
      "ret (kernel w (length (calls w))) = 0"
      "sfd_update maxsig (round_state S s) (issue (round_call S s) w) = (e, S', w')"
  using assms by (subst (asm) sfd_update_unfold) (auto simp: Let_def split: if_splits)

text \<open>The calls \<open>sfd_update\<close> can make on a listener: one per signal the scan can return.\<close>

definition update_calls :: "int \<Rightarrow> signalfd \<Rightarrow> syscall set" where
  "update_calls maxsig S = round_call S ` scanned maxsig"

lemma update_calls_round_state [simp]:
  "update_calls maxsig (round_state S s) = update_calls maxsig S"
  by (simp add: update_calls_def round_call_def [abs_def])

lemma round_state_polling:
  "polling (round_state S s) = (if s \<in> desired S then insert s (polling S) else polling S - {s})"
  by (simp add: round_state_def)

lemma sfd_update_frame:
  "sfd_update maxsig S w = (e, S', w') \<Longrightarrow>
     fd S' = fd S \<and> desired S' = desired S \<and> pending S' = pending S \<and> kernel w' = kernel w"
proof (induction maxsig S w rule: sfd_update_induct)
  case (round maxsig S w)
  from round.prems show ?case
  proof (cases rule: sfd_update_cases)
    case (step s)
    from round.IH [OF step] show ?thesis by simp
  qed simp_all
qed

lemma sfd_update_calls:
  "sfd_update maxsig S w = (e, S', w') \<Longrightarrow>
     \<exists>cs. calls w' = calls w @ cs \<and> set cs \<subseteq> update_calls maxsig S"
proof (induction maxsig S w rule: sfd_update_induct)
  case (round maxsig S w)
  from round.prems show ?case
  proof (cases rule: sfd_update_cases)
    case none
    then show ?thesis by simp
  next
    case (fail s)
    then have "s \<in> scanned maxsig" using sfd_update_round(1) by blast
    with fail show ?thesis by (simp add: update_calls_def)
  next
    case (step s)
    then have sc: "s \<in> scanned maxsig" using sfd_update_round(1) by blast
    from round.IH [OF step] obtain cs where
      "calls w' = calls w @ round_call S s # cs" "set cs \<subseteq> update_calls maxsig S"
      by auto
    with sc have "calls w' = calls w @ (round_call S s # cs) \<and>
        set (round_call S s # cs) \<subseteq> update_calls maxsig S"
      by (simp add: update_calls_def)
    then show ?thesis by blast
  qed
qed

lemma sfd_update_polling:
  "sfd_update maxsig S w = (e, S', w') \<Longrightarrow>
     polling S' - scanned maxsig = polling S - scanned maxsig \<and>
     polling S' \<subseteq> polling S \<union> desired S \<and> polling S \<inter> desired S \<subseteq> polling S'"
proof (induction maxsig S w rule: sfd_update_induct)
  case (round maxsig S w)
  from round.prems show ?case
  proof (cases rule: sfd_update_cases)
    case (step s)
    then have sc: "s \<in> scanned maxsig" using sfd_update_round(1) by blast
    from round.IH [OF step] sc show ?thesis
      by (auto simp: round_state_polling split: if_splits)
  qed simp_all
qed

lemma sfd_update_converged:
  "sfd_update maxsig S w = (e, S', w') \<Longrightarrow> e = 0 \<Longrightarrow> errno_set w' \<Longrightarrow>
     polling S' \<inter> scanned maxsig = desired S \<inter> scanned maxsig"
proof (induction maxsig S w rule: sfd_update_induct)
  case (round maxsig S w)
  from round.prems(1) show ?case
  proof (cases rule: sfd_update_cases)
    case none
    then show ?thesis by (simp add: sfd_diff_zero)
  next
    case (fail s)
    have "failed (round_call S s) (kernel w (length (calls w)))"
      using fail(3) by (simp add: round_call_def)
    moreover have "(round_call S s, kernel w (length (calls w))) \<in> set (run w')"
      using fail(6) by (simp add: run_issue)
    ultimately have "errno (kernel w (length (calls w))) \<noteq> 0"
      using round.prems(3) unfolding errno_set_def by blast
    with fail(4) round.prems(2) show ?thesis by simp
  next
    case (step s)
    from round.IH [OF step round.prems(2,3)] show ?thesis by simp
  qed
qed

lemma sfd_update_succeeds:
  "sfd_update maxsig S w = (e, S', w') \<Longrightarrow>
     \<forall>t\<ge>length (calls w). ret (kernel w t) = 0 \<Longrightarrow> e = 0"
proof (induction maxsig S w rule: sfd_update_induct)
  case (round maxsig S w)
  from round.prems(1) show ?case
  proof (cases rule: sfd_update_cases)
    case (step s)
    from round.prems(2) have "\<forall>t\<ge>length (calls (issue (round_call S s) w)).
        ret (kernel (issue (round_call S s) w) t) = 0" by simp
    with round.IH [OF step] show ?thesis by blast
  next
    case (fail s)
    with round.prems(2) show ?thesis by simp
  qed simp
qed

lemma sfd_update_settled:
  "sfd_diff maxsig (desired S) (polling S) = 0 \<Longrightarrow> sfd_update maxsig S w = (0, S, w)"
  by (subst sfd_update_unfold) simp

subsection \<open>Facts about draining\<close>

text \<open>
  \<open>next_reply w k\<close> is the kernel's answer to the call after the next \<open>k\<close> calls. A poll
  is interrupted when it fails with \<^verbatim>\<open>EINTR\<close>; \<open>poll_answers w k\<close> says that the next
  \<open>k\<close> answers are interrupted polls and the one after them is not. \<open>polled k S w\<close> is
  the world after \<open>k\<close> polls on the listener's descriptor, \<open>deliver\<close> the struct after a
  signal event, and \<open>after_poll\<close> what \<open>sfd_query\<close> does with an answer that is not an
  interrupted poll.
\<close>

definition next_reply :: "world \<Rightarrow> nat \<Rightarrow> sysret" where
  "next_reply w k = kernel w (length (calls w) + k)"

definition interrupted :: "sysret \<Rightarrow> bool" where
  "interrupted r \<longleftrightarrow> ret r = - 1 \<and> errno r = EINTR"

definition poll_answers :: "world \<Rightarrow> nat \<Rightarrow> bool" where
  "poll_answers w k \<longleftrightarrow> (\<forall>j<k. interrupted (next_reply w j)) \<and> \<not> interrupted (next_reply w k)"

definition polled :: "nat \<Rightarrow> signalfd \<Rightarrow> world \<Rightarrow> world" where
  "polled k S w = w\<lparr>calls := calls w @ replicate k (SYS_kevent_poll (fd S))\<rparr>"

definition deliver :: "int \<Rightarrow> signalfd \<Rightarrow> int \<Rightarrow> signalfd" where
  "deliver maxsig S i = S\<lparr>pending := sigaddset maxsig (pending S) i,
     polling := sigdelset maxsig (polling S) i\<rparr>"

definition after_poll :: "int \<Rightarrow> signalfd \<Rightarrow> sysret \<Rightarrow> world \<Rightarrow> int \<times> signalfd \<times> world" where
  "after_poll maxsig S r w' =
     (if 1 = ret r then
        (if ev_filter r = EVFILT_SIGNAL then sfd_update maxsig (deliver maxsig S (ev_ident r)) w'
         else sfd_update maxsig S w')
      else if ret r = - 1 then (errno r, S, w')
      else sfd_update maxsig S w')"

lemma sfd_query_unfold:
  "sfd_query maxsig S w =
     (if interrupted (next_reply w 0) then sfd_query maxsig S (issue (SYS_kevent_poll (fd S)) w)
      else Some (after_poll maxsig S (next_reply w 0) (issue (SYS_kevent_poll (fd S)) w)))"
  by (subst sfd_query.simps)
    (simp add: do_syscall_issue interrupted_def next_reply_def after_poll_def deliver_def)

lemma polled_simps [simp]:
  "kernel (polled k S w) = kernel w"
  "calls (polled k S w) = calls w @ replicate k (SYS_kevent_poll (fd S))"
  "polled 0 S w = w"
  by (simp_all add: polled_def)

lemma polled_issue: "polled k S (issue (SYS_kevent_poll (fd S)) w) = polled (Suc k) S w"
  by (simp add: polled_def issue_def replicate_append_same)

lemma next_reply_issue [simp]: "next_reply (issue c w) k = next_reply w (Suc k)"
  by (simp add: next_reply_def)

lemma poll_answers_Suc:
  "poll_answers w (Suc k) \<longleftrightarrow> interrupted (next_reply w 0) \<and> poll_answers (issue c w) k"
proof -
  have "(\<forall>j<Suc k. interrupted (next_reply w j)) \<longleftrightarrow>
      interrupted (next_reply w 0) \<and> (\<forall>j<k. interrupted (next_reply w (Suc j)))"
    by (auto simp: less_Suc_eq_0_disj)
  then show ?thesis by (simp add: poll_answers_def)
qed

lemma sfd_query_answer:
  "poll_answers w k \<Longrightarrow>
     sfd_query maxsig S w = Some (after_poll maxsig S (next_reply w k) (polled (Suc k) S w))"
proof (induction k arbitrary: w)
  case 0
  then have "\<not> interrupted (next_reply w 0)" by (simp add: poll_answers_def)
  then show ?case by (subst sfd_query_unfold) (simp add: polled_issue [symmetric])
next
  case (Suc k)
  let ?w1 = "issue (SYS_kevent_poll (fd S)) w"
  from Suc.prems have i: "interrupted (next_reply w 0)" and a: "poll_answers ?w1 k"
    using poll_answers_Suc [of w k "SYS_kevent_poll (fd S)"] by simp_all
  have "sfd_query maxsig S w = sfd_query maxsig S ?w1"
    using i by (subst sfd_query_unfold) simp
  also have "\<dots> = Some (after_poll maxsig S (next_reply ?w1 k) (polled (Suc k) S ?w1))"
    by (rule Suc.IH [OF a])
  finally show ?case by (simp add: polled_issue)
qed

lemma sfd_query_result:
  assumes "sfd_query maxsig S w = Some y"
  shows "\<exists>k. poll_answers w k \<and> y = after_poll maxsig S (next_reply w k) (polled (Suc k) S w)"
proof (rule sfd_query.raw_induct [where P = "\<lambda>maxsig S w y.
    \<exists>k. poll_answers w k \<and> y = after_poll maxsig S (next_reply w k) (polled (Suc k) S w)"],
    goal_cases)
  case 2
  show ?case by (rule assms)
next
  case (1 sfd_query' maxsig S w y)
  let ?w1 = "issue (SYS_kevent_poll (fd S)) w"
  show ?case
  proof (cases "interrupted (next_reply w 0)")
    case True
    with 1(2) have "sfd_query' maxsig S ?w1 = Some y"
      by (simp add: do_syscall_issue interrupted_def next_reply_def)
    from 1(1) [OF this] obtain k where
      "poll_answers ?w1 k" "y = after_poll maxsig S (next_reply ?w1 k) (polled (Suc k) S ?w1)"
      by blast
    with True have "poll_answers w (Suc k) \<and>
        y = after_poll maxsig S (next_reply w (Suc k)) (polled (Suc (Suc k)) S w)"
      using poll_answers_Suc [of w k "SYS_kevent_poll (fd S)"] by (simp add: polled_issue)
    then show ?thesis by blast
  next
    case False
    with 1(2) have "y = after_poll maxsig S (next_reply w 0) ?w1"
      by (auto simp: do_syscall_issue interrupted_def next_reply_def after_poll_def deliver_def
          split: if_splits)
    with False have "poll_answers w 0 \<and>
        y = after_poll maxsig S (next_reply w 0) (polled (Suc 0) S w)"
      by (simp add: poll_answers_def polled_issue [symmetric])
    then show ?thesis by blast
  qed
qed


lemma run_extends:
  assumes "kernel w' = kernel w" and "calls w' = calls w @ cs"
  shows "run w' = run w @ zip cs (map (kernel w) [length (calls w)..<length (calls w) + length cs])"
  using assms by (simp add: run_def upt_add_eq_append [of 0] del: upt_Suc)

lemma run_polled_last:
  "(SYS_kevent_poll (fd S), next_reply w k) \<in> set (run (polled (Suc k) S w))"
proof -
  have "polled (Suc k) S w = issue (SYS_kevent_poll (fd S)) (polled k S w)"
    by (simp add: polled_def issue_def replicate_append_same)
  then show ?thesis by (simp add: run_issue next_reply_def)
qed

lemma deliver_simps [simp]:
  "fd (deliver maxsig S i) = fd S" "desired (deliver maxsig S i) = desired S"
  "pending (deliver maxsig S i) = sigaddset maxsig (pending S) i"
  "polling (deliver maxsig S i) = sigdelset maxsig (polling S) i"
  by (simp_all add: deliver_def)

lemma update_calls_deliver [simp]:
  "update_calls maxsig (deliver maxsig S i) = update_calls maxsig S"
  by (simp add: update_calls_def round_call_def [abs_def])

lemma sigdelset_subset: "sigdelset maxsig s i \<subseteq> s"
  by (auto simp: sigdelset_def)

text \<open>What the state after a poll is, in terms of the state before it.\<close>

lemma after_poll_cases [consumes 1, case_names event failure quiet]:
  assumes "after_poll maxsig S r w1 = y"
  obtains
    (event) "1 = ret r" "ev_filter r = EVFILT_SIGNAL"
      "sfd_update maxsig (deliver maxsig S (ev_ident r)) w1 = y"
  | (failure) "ret r = - 1" "y = (errno r, S, w1)"
  | (quiet) "\<not> (1 = ret r \<and> ev_filter r = EVFILT_SIGNAL)" "sfd_update maxsig S w1 = y"
  using assms unfolding after_poll_def by (cases "1 = ret r"; cases "ev_filter r = EVFILT_SIGNAL"; cases "ret r = - 1"; simp)

lemma after_poll_frame:
  assumes "after_poll maxsig S r w1 = (e, S', w')"
  shows "fd S' = fd S" and "desired S' = desired S" and "kernel w' = kernel w1"
    and "pending S' = (if 1 = ret r \<and> ev_filter r = EVFILT_SIGNAL
           then sigaddset maxsig (pending S) (ev_ident r) else pending S)"
proof -
  have "fd S' = fd S \<and> desired S' = desired S \<and> kernel w' = kernel w1 \<and>
      pending S' = (if 1 = ret r \<and> ev_filter r = EVFILT_SIGNAL
           then sigaddset maxsig (pending S) (ev_ident r) else pending S)"
    using assms
  proof (cases rule: after_poll_cases)
    case event
    from sfd_update_frame [OF event(3)] event(1,2) show ?thesis by simp
  next
    case failure
    then show ?thesis by simp
  next
    case quiet
    from sfd_update_frame [OF quiet(2)] quiet(1) show ?thesis by auto
  qed
  then show "fd S' = fd S" and "desired S' = desired S" and "kernel w' = kernel w1"
    and "pending S' = (if 1 = ret r \<and> ev_filter r = EVFILT_SIGNAL
           then sigaddset maxsig (pending S) (ev_ident r) else pending S)"
    by blast+
qed

lemma after_poll_calls:
  assumes "after_poll maxsig S r w1 = (e, S', w')"
  shows "\<exists>cs. calls w' = calls w1 @ cs \<and> set cs \<subseteq> update_calls maxsig S"
  using assms
proof (cases rule: after_poll_cases)
  case event
  from sfd_update_calls [OF event(3)] show ?thesis by simp
next
  case failure
  then show ?thesis by simp
next
  case quiet
  from sfd_update_calls [OF quiet(2)] show ?thesis .
qed

lemma after_poll_polling:
  assumes "after_poll maxsig S r w1 = (e, S', w')"
  shows "polling S' \<subseteq> polling S \<union> desired S"
    and "polling S' - scanned maxsig \<subseteq> polling S - scanned maxsig"
proof -
  have d: "sigdelset maxsig (polling S) (ev_ident r) \<subseteq> polling S" by (rule sigdelset_subset)
  have "polling S' \<subseteq> polling S \<union> desired S \<and>
      polling S' - scanned maxsig \<subseteq> polling S - scanned maxsig"
    using assms
  proof (cases rule: after_poll_cases)
    case event
    from sfd_update_polling [OF event(3)] d show ?thesis by auto
  next
    case failure
    then show ?thesis by simp
  next
    case quiet
    from sfd_update_polling [OF quiet(2)] show ?thesis by auto
  qed
  then show "polling S' \<subseteq> polling S \<union> desired S"
    and "polling S' - scanned maxsig \<subseteq> polling S - scanned maxsig" by blast+
qed

lemma after_poll_converged:
  assumes "after_poll maxsig S r w1 = (0, S', w')" and "errno_set w'"
    and "ret r = - 1 \<longrightarrow> errno r \<noteq> 0"
  shows "polling S' \<inter> scanned maxsig = desired S \<inter> scanned maxsig"
  using assms(1)
proof (cases rule: after_poll_cases)
  case event
  from sfd_update_converged [OF event(3) refl assms(2)] show ?thesis by simp
next
  case failure
  with assms(3) show ?thesis by simp
next
  case quiet
  from sfd_update_converged [OF quiet(2) refl assms(2)] show ?thesis .
qed

text \<open>The same for a drain that returns.\<close>

lemma sfd_query_frame:
  assumes "sfd_query maxsig S w = Some (e, S', w')"
  shows "fd S' = fd S" and "desired S' = desired S" and "kernel w' = kernel w"
proof -
  from sfd_query_result [OF assms] obtain k where
    "after_poll maxsig S (next_reply w k) (polled (Suc k) S w) = (e, S', w')" by auto
  from after_poll_frame [OF this]
  show "fd S' = fd S" and "desired S' = desired S" and "kernel w' = kernel w" by simp_all
qed

lemma sfd_query_calls:
  assumes "sfd_query maxsig S w = Some (e, S', w')"
  shows "\<exists>k cs. poll_answers w k \<and>
     calls w' = calls w @ replicate (Suc k) (SYS_kevent_poll (fd S)) @ cs \<and>
     set cs \<subseteq> update_calls maxsig S"
proof -
  from sfd_query_result [OF assms] obtain k where k: "poll_answers w k"
    "after_poll maxsig S (next_reply w k) (polled (Suc k) S w) = (e, S', w')" by auto
  from after_poll_calls [OF k(2)] k(1) show ?thesis by auto
qed

lemma sfd_query_polling:
  assumes "sfd_query maxsig S w = Some (e, S', w')"
  shows "polling S' \<subseteq> polling S \<union> desired S"
    and "polling S' - scanned maxsig \<subseteq> polling S - scanned maxsig"
proof -
  from sfd_query_result [OF assms] obtain k where
    k: "after_poll maxsig S (next_reply w k) (polled (Suc k) S w) = (e, S', w')" by auto
  show "polling S' \<subseteq> polling S \<union> desired S" by (rule after_poll_polling(1) [OF k])
  show "polling S' - scanned maxsig \<subseteq> polling S - scanned maxsig"
    by (rule after_poll_polling(2) [OF k])
qed

lemma sfd_query_converged:
  assumes "sfd_query maxsig S w = Some (0, S', w')" and "errno_set w'"
  shows "polling S' \<inter> scanned maxsig = desired S \<inter> scanned maxsig"
proof -
  from sfd_query_result [OF assms(1)] obtain k where
    k: "after_poll maxsig S (next_reply w k) (polled (Suc k) S w) = (0, S', w')" by auto
  from after_poll_frame(3) [OF k] after_poll_calls [OF k] obtain cs where
    "kernel w' = kernel (polled (Suc k) S w)" "calls w' = calls (polled (Suc k) S w) @ cs"
    by auto
  from run_extends [OF this] have "set (run (polled (Suc k) S w)) \<subseteq> set (run w')" by simp
  with run_polled_last [of S w k]
  have "(SYS_kevent_poll (fd S), next_reply w k) \<in> set (run w')" by blast
  with assms(2) have "ret (next_reply w k) = - 1 \<longrightarrow> errno (next_reply w k) \<noteq> 0"
    unfolding errno_set_def by fastforce
  with k assms(2) show ?thesis by (rule after_poll_converged)
qed

subsection \<open>Facts about construction, and the worlds of the examples\<close>

text \<open>A kernel in which every call returns 0 and no event is ever ready.\<close>

definition quiet_kernel :: "nat \<Rightarrow> sysret" where
  "quiet_kernel t = \<lparr>ret = 0, errno = 0, ev_filter = 0, ev_ident = 0\<rparr>"

definition fresh_world :: world where
  "fresh_world = \<lparr>kernel = quiet_kernel, calls = []\<rparr>"

lemma lsl_listen_args_result:
  "lsl_listen_args maxsig args index S = (r, S1) \<Longrightarrow>
     fd S1 = fd S \<and> polling S1 = polling S \<and> pending S1 = pending S \<and>
     (r = None \<longrightarrow> desired S1 = desired S \<union> {s. valid_signo maxsig s \<and> LNumber s \<in> set args})"
proof (induction args arbitrary: index S)
  case Nil
  then show ?case by simp
next
  case (Cons v vs)
  show ?case
  proof (cases v)
    case LOther
    with Cons.prems show ?thesis by auto
  next
    case (LNumber n)
    with Cons.prems have
      "lsl_listen_args maxsig vs (index + 1) (S\<lparr>desired := sigaddset maxsig (desired S) n\<rparr>) = (r, S1)"
      by simp
    from Cons.IH [OF this] LNumber show ?thesis
      by (auto simp: sigaddset_def split: if_splits)
  qed
qed

lemma sfd_init_result:
  "sfd_init S w = (e, S', w') \<Longrightarrow>
     desired S' = desired S \<and> polling S' = polling S \<and> pending S' = pending S \<and>
     fd S' = ret (kernel w (length (calls w))) \<and> w' = issue SYS_kqueue w \<and>
     e = (if ret (kernel w (length (calls w))) = - 1 then errno (kernel w (length (calls w))) else 0)"
  by (auto simp: sfd_init_def do_syscall_issue Let_def split: if_splits)

lemma errno_set_prefix:
  assumes "errno_set w'" and "kernel w' = kernel w" and "calls w' = calls w @ cs"
  shows "errno_set w"
proof -
  have "run w' = run w @ zip cs (map (kernel w) [length (calls w)..<length (calls w) + length cs])"
    using assms(2,3) by (simp add: run_def upt_add_eq_append [of 0] del: upt_Suc)
  with assms(1) show ?thesis by (auto simp: errno_set_def)
qed

definition two_signals :: signalfd where
  "two_signals = \<lparr>fd = 3, desired = {2, 15}, polling = {}, pending = {}\<rparr>"

lemma sfd_preinit_fields [simp]:
  "fd (sfd_preinit S) = - 1" "desired (sfd_preinit S) = {}"
  "polling (sfd_preinit S) = {}" "pending (sfd_preinit S) = {}"
  by (simp_all add: sfd_preinit_def sigemptyset_def)

lemma lsl_listen_returns [consumes 1, case_names listening]:
  assumes "lsl_listen maxsig args w = (Inr n, U, w')"
  obtains S1 S2 where
    "lsl_listen_args maxsig args 1 (sfd_preinit lua_newuserdata) = (None, S1)"
    "sfd_init S1 w = (0, S2, issue SYS_kqueue w)"
    "sfd_update maxsig S2 (issue SYS_kqueue w) = (0, udata U, w')"
    "metatable U = Some LSL_CLASS" "n = 1"
proof -
  obtain r S1 where a: "lsl_listen_args maxsig args 1 (sfd_preinit lua_newuserdata) = (r, S1)"
    by (cases "lsl_listen_args maxsig args 1 (sfd_preinit lua_newuserdata)")
  obtain e2 S2 w2 where i: "sfd_init S1 w = (e2, S2, w2)" by (cases "sfd_init S1 w")
  obtain e3 S3 w3 where u: "sfd_update maxsig S2 w2 = (e3, S3, w3)"
    by (cases "sfd_update maxsig S2 w2")
  from assms a have r: "r = None" by (auto simp: lsl_listen_def split: option.splits)
  from assms a i r have e2: "e2 = 0"
    by (auto simp: lsl_listen_def Let_def split: if_splits prod.splits)
  from assms a i u r e2 have e3: "e3 = 0" "U = \<lparr>udata = S3, metatable = Some LSL_CLASS\<rparr>"
      "w' = w3" "n = 1"
    by (auto simp: lsl_listen_def Let_def split: if_splits)
  from sfd_init_result [OF i] have "w2 = issue SYS_kqueue w" by simp
  with a i u r e2 e3 that show thesis by simp
qed

text \<open>
  A kernel whose first poll is interrupted and whose second poll reports signal 15; every
  other call returns 0.
\<close>

definition stormy_kernel :: "nat \<Rightarrow> sysret" where
  "stormy_kernel t =
     (if t = 0 then \<lparr>ret = - 1, errno = 4, ev_filter = 0, ev_ident = 0\<rparr>
      else if t = 1 then \<lparr>ret = 1, errno = 0, ev_filter = - 6, ev_ident = 15\<rparr>
      else \<lparr>ret = 0, errno = 0, ev_filter = 0, ev_ident = 0\<rparr>)"

definition stormy_world :: world where
  "stormy_world = \<lparr>kernel = stormy_kernel, calls = []\<rparr>"

definition pending_15 :: signalfd where
  "pending_15 = \<lparr>fd = 3, desired = {2, 15}, polling = {2, 15}, pending = {15}\<rparr>"

subsection \<open>Reachable listeners\<close>

text \<open>
  The signals a log asks the kernel to add, and the signal a poll reports. A kernel queue
  reports only signals that were added to it: \<open>events_requested\<close> says so of the run so
  far.
\<close>

fun added :: "syscall \<Rightarrow> int set" where
  "added (SYS_kevent_add d signo) = {signo}"
| "added SYS_kqueue = {}"
| "added (SYS_close d) = {}"
| "added (SYS_kevent_delete d signo) = {}"
| "added (SYS_kevent_poll d) = {}"

definition requested :: "syscall list \<Rightarrow> int set" where
  "requested cs = (\<Union>c\<in>set cs. added c)"

fun reports :: "syscall \<Rightarrow> sysret \<Rightarrow> int option" where
  "reports (SYS_kevent_poll d) r =
     (if 1 = ret r \<and> ev_filter r = EVFILT_SIGNAL then Some (ev_ident r) else None)"
| "reports SYS_kqueue r = None"
| "reports (SYS_close d) r = None"
| "reports (SYS_kevent_add d signo) r = None"
| "reports (SYS_kevent_delete d signo) r = None"

definition events_requested :: "world \<Rightarrow> bool" where
  "events_requested w \<longleftrightarrow>
     (\<forall>t\<in>{..<length (calls w)}.
        case reports (calls w ! t) (kernel w t) of
          None \<Rightarrow> True
        | Some i \<Rightarrow> i \<in> requested (take t (calls w)))"

text \<open>
  A listener is reachable when \<open>lsl_listen\<close> returned it, in a world whose log starts
  with the listener, or when a drain or a \<open>lsl_wait\<close> on a reachable listener left it,
  whatever they returned. In signal.c only \<open>lsl_wait\<close> calls \<open>sfd_query\<close>; the rule for
  the drain alone makes the state between the drain and the removal of the signal a
  reachable one, and the states after several drains in a row.
\<close>

inductive reachable :: "int \<Rightarrow> signalfd \<Rightarrow> world \<Rightarrow> bool" for maxsig :: int where
  listen: "lsl_listen maxsig args \<lparr>kernel = K, calls = []\<rparr> = (Inr n, U, w) \<Longrightarrow>
     reachable maxsig (udata U) w"
| drain: "reachable maxsig S w \<Longrightarrow> sfd_query maxsig S w = Some (e, S', w') \<Longrightarrow>
     reachable maxsig S' w'"
| wait: "reachable maxsig S w \<Longrightarrow> lsl_wait maxsig S w = Some (r, S', w') \<Longrightarrow>
     reachable maxsig S' w'"

lemma requested_append [simp]: "requested (cs @ ds) = requested cs \<union> requested ds"
  by (auto simp: requested_def)

lemma requested_simps [simp]:
  "requested [] = {}" "requested (c # cs) = added c \<union> requested cs"
  by (auto simp: requested_def)

lemma requested_polls [simp]: "requested (replicate k (SYS_kevent_poll d)) = {}"
  by (induction k) simp_all

lemma requested_update_calls:
  "set cs \<subseteq> update_calls maxsig S \<Longrightarrow> requested cs \<subseteq> desired S \<inter> scanned maxsig"
  by (auto simp: requested_def update_calls_def round_call_def split: if_splits)

lemma events_requested_prefix:
  assumes "events_requested w'" and "kernel w' = kernel w" and "calls w' = calls w @ cs"
  shows "events_requested w"
  unfolding events_requested_def
proof
  fix t assume "t \<in> {..<length (calls w)}"
  then have t: "t < length (calls w)" by simp
  with assms(3) have "t \<in> {..<length (calls w')}" by simp
  with assms(1) have "case reports (calls w' ! t) (kernel w' t) of None \<Rightarrow> True
      | Some i \<Rightarrow> i \<in> requested (take t (calls w'))"
    unfolding events_requested_def by blast
  moreover from t assms(3) have "take t (calls w') = take t (calls w)"
    "calls w' ! t = calls w ! t" by (simp_all add: nth_append)
  ultimately show "case reports (calls w ! t) (kernel w t) of None \<Rightarrow> True
      | Some i \<Rightarrow> i \<in> requested (take t (calls w))"
    using assms(2) by (simp split: option.splits)
qed

lemma events_requested_at:
  assumes "events_requested w'" and "kernel w' = kernel w"
    and "calls w' = calls w @ c # cs" and "reports c (kernel w (length (calls w))) = Some i"
  shows "i \<in> requested (calls w)"
proof -
  from assms(3) have "length (calls w) \<in> {..<length (calls w')}" by simp
  with assms(1) have "case reports (calls w' ! length (calls w)) (kernel w' (length (calls w))) of
      None \<Rightarrow> True | Some i \<Rightarrow> i \<in> requested (take (length (calls w)) (calls w'))"
    unfolding events_requested_def by blast
  moreover from assms(3) have "take (length (calls w)) (calls w') = calls w"
    "calls w' ! length (calls w) = c" by simp_all
  ultimately show ?thesis using assms(2,4) by (simp split: option.splits)
qed


lemma sfd_query_shape:
  assumes "sfd_query maxsig S w = Some (e, S', w')"
  obtains k cs where "poll_answers w k"
    and "calls w' = calls w @ replicate k (SYS_kevent_poll (fd S)) @ SYS_kevent_poll (fd S) # cs"
    and "set cs \<subseteq> update_calls maxsig S"
    and "pending S' = (case reports (SYS_kevent_poll (fd S)) (next_reply w k) of
           None \<Rightarrow> pending S | Some i \<Rightarrow> sigaddset maxsig (pending S) i)"
proof -
  from sfd_query_result [OF assms] obtain k where k: "poll_answers w k"
    "after_poll maxsig S (next_reply w k) (polled (Suc k) S w) = (e, S', w')" by auto
  from after_poll_calls [OF k(2)] obtain cs where
    cs: "calls w' = calls (polled (Suc k) S w) @ cs" "set cs \<subseteq> update_calls maxsig S" by auto
  from cs(1) have "calls w' =
      calls w @ replicate k (SYS_kevent_poll (fd S)) @ SYS_kevent_poll (fd S) # cs"
    by (simp add: replicate_append_same)
  moreover from after_poll_frame(4) [OF k(2)]
  have "pending S' = (case reports (SYS_kevent_poll (fd S)) (next_reply w k) of
           None \<Rightarrow> pending S | Some i \<Rightarrow> sigaddset maxsig (pending S) i)" by simp
  ultimately show thesis using k(1) cs(2) that by blast
qed

lemma lsl_wait_cases [consumes 1, case_names error signal none]:
  assumes "lsl_wait maxsig S w = Some (r, S', w')"
  obtains
    (error) e where "sfd_query maxsig S w = Some (e, S', w')" "e \<noteq> 0" "r = Inl (WaitError e)"
  | (signal) S1 s where "sfd_query maxsig S w = Some (0, S1, w')"
      "sfd_diff maxsig (pending S1) sigemptyset = s" "s \<noteq> 0" "r = Inr (Some s)"
      "S' = S1\<lparr>pending := sigdelset maxsig (pending S1) s\<rparr>"
  | (none) "sfd_query maxsig S w = Some (0, S', w')"
      "sfd_diff maxsig (pending S') sigemptyset = 0" "r = Inr None"
proof (cases "sfd_query maxsig S w")
  case None
  with assms show thesis by (simp add: lsl_wait_def)
next
  case (Some y)
  obtain e S1 w1 where y: "y = (e, S1, w1)" by (cases y)
  show thesis
  proof (cases "e = 0")
    case False
    with assms Some y error show thesis by (simp add: lsl_wait_def)
  next
    case True
    show thesis
    proof (cases "sfd_diff maxsig (pending S1) sigemptyset = 0")
      case z: True
      with assms Some y True none show thesis by (simp add: lsl_wait_def)
    next
      case nz: False
      with assms Some y True signal show thesis by (simp add: lsl_wait_def Let_def)
    qed
  qed
qed

text \<open>
  What holds of every reachable listener: polling holds only desired signals in 1..31,
  only such signals were ever added to the kernel queue, and, if the kernel reported only
  signals that had been added, every pending signal is one of them.
\<close>

definition listener_inv :: "int \<Rightarrow> signalfd \<Rightarrow> world \<Rightarrow> bool" where
  "listener_inv maxsig S w \<longleftrightarrow>
     polling S \<subseteq> desired S \<inter> scanned maxsig \<and>
     requested (calls w) \<subseteq> desired S \<inter> scanned maxsig \<and>
     (events_requested w \<longrightarrow> pending S \<subseteq> requested (calls w))"

lemma listener_inv_listen:
  assumes "lsl_listen maxsig args \<lparr>kernel = K, calls = []\<rparr> = (Inr n, U, w)"
  shows "listener_inv maxsig (udata U) w"
  using assms
proof (cases rule: lsl_listen_returns)
  case (listening S1 S2)
  from lsl_listen_args_result [OF listening(1)] sfd_init_result [OF listening(2)]
  have S2: "polling S2 = {}" "pending S2 = {}" by simp_all
  note f = sfd_update_frame [OF listening(3)]
  from sfd_update_polling [OF listening(3)] S2 f
  have "polling (udata U) \<subseteq> desired (udata U) \<inter> scanned maxsig" by auto
  moreover from sfd_update_calls [OF listening(3)] obtain cs where
    "calls w = [SYS_kqueue] @ cs" "set cs \<subseteq> update_calls maxsig S2" by auto
  with requested_update_calls [of cs maxsig S2] f
  have "requested (calls w) \<subseteq> desired (udata U) \<inter> scanned maxsig" by simp
  moreover from f S2 have "pending (udata U) = {}" by simp
  ultimately show ?thesis by (simp add: listener_inv_def)
qed

lemma listener_inv_drain:
  assumes inv: "listener_inv maxsig S w" and q: "sfd_query maxsig S w = Some (e, S', w')"
  shows "listener_inv maxsig S' w'"
proof -
  note f = sfd_query_frame [OF q]
  from q show ?thesis
  proof (cases rule: sfd_query_shape)
    case (1 k cs)
    let ?p = "SYS_kevent_poll (fd S)"
    from sfd_query_polling [OF q] inv f
    have a: "polling S' \<subseteq> desired S' \<inter> scanned maxsig" by (auto simp: listener_inv_def)
    from 1(2,3) requested_update_calls [of cs maxsig S] inv f
    have b: "requested (calls w') \<subseteq> desired S' \<inter> scanned maxsig"
      by (simp add: listener_inv_def)
    have c: "pending S' \<subseteq> requested (calls w')" if er: "events_requested w'"
    proof -
      have "calls w' = calls w @ (replicate k ?p @ ?p # cs)" using 1(2) by simp
      with er f(3) have "events_requested w" by (rule events_requested_prefix)
      with inv have old: "pending S \<subseteq> requested (calls w)" by (simp add: listener_inv_def)
      have new: "i \<in> requested (calls w)" if i: "reports ?p (next_reply w k) = Some i" for i
      proof -
        have "i \<in> requested (calls (polled k S w))"
        proof (rule events_requested_at [OF er])
          show "kernel w' = kernel (polled k S w)" using f(3) by simp
          show "calls w' = calls (polled k S w) @ ?p # cs" using 1(2) by simp
          show "reports ?p (kernel (polled k S w) (length (calls (polled k S w)))) = Some i"
            using i by (simp add: next_reply_def)
        qed
        then show ?thesis by simp
      qed
      have "pending S' \<subseteq> requested (calls w)"
      proof (cases "reports ?p (next_reply w k)")
        case None
        with 1(4) old show ?thesis by simp
      next
        case (Some i)
        with 1(4) old new [OF Some] show ?thesis by (auto simp: sigaddset_def)
      qed
      with 1(2) show ?thesis by auto
    qed
    from a b c show ?thesis unfolding listener_inv_def by blast
  qed
qed

lemma listener_inv_wait:
  assumes inv: "listener_inv maxsig S w" and l: "lsl_wait maxsig S w = Some (r, S', w')"
  shows "listener_inv maxsig S' w'"
  using l
proof (cases rule: lsl_wait_cases)
  case (error e)
  from inv error(1) show ?thesis by (rule listener_inv_drain)
next
  case (signal S1 s)
  from inv signal(1) have "listener_inv maxsig S1 w'" by (rule listener_inv_drain)
  moreover have "pending S' \<subseteq> pending S1" using signal(5) by (auto simp: sigdelset_def)
  ultimately show ?thesis using signal(5) by (auto simp: listener_inv_def)
next
  case none
  from inv none(1) show ?thesis by (rule listener_inv_drain)
qed

lemma reachable_invariant: "reachable maxsig S w \<Longrightarrow> listener_inv maxsig S w"
  by (induction rule: reachable.induct)
    (auto intro: listener_inv_listen listener_inv_drain listener_inv_wait)

lemma reachable_pending_scanned:
  assumes "reachable maxsig S w" and "events_requested w"
  shows "pending S \<subseteq> scanned maxsig"
  using reachable_invariant [OF assms(1)] assms(2) by (auto simp: listener_inv_def)

text \<open>On a set of signals in 1..31, the scan against the empty set finds the least member.\<close>

lemma sfd_diff_least_pending:
  assumes "P \<subseteq> scanned maxsig"
  shows "sfd_diff maxsig P sigemptyset = (if P = {} then 0 else Min P)"
proof (cases "sfd_diff maxsig P sigemptyset = 0")
  case True
  then have "P \<inter> scanned maxsig = {}" by (simp add: sfd_diff_zero sigemptyset_def)
  with assms have "P = {}" by blast
  with True show ?thesis by simp
next
  case False
  note f = sfd_diff_found [OF refl False]
  from f(2) have m: "sfd_diff maxsig P sigemptyset \<in> P" by (simp add: sigemptyset_def)
  have fin: "finite P" using assms scanned_finite by (rule finite_subset)
  have "Min P = sfd_diff maxsig P sigemptyset"
  proof (rule Min_eqI [OF fin _ m])
    fix t assume t: "t \<in> P"
    show "sfd_diff maxsig P sigemptyset \<le> t"
    proof (rule ccontr)
      assume "\<not> sfd_diff maxsig P sigemptyset \<le> t"
      then have "t < sfd_diff maxsig P sigemptyset" by simp
      with f(3) [of t] t assms show False by (auto simp: sigemptyset_def)
    qed
  qed
  with m show ?thesis by auto
qed

text \<open>
  The run of the examples: \<^verbatim>\<open>kqueue\<close> returns descriptor 3, the two signals of
  \<open>signal.listen(2, 15)\<close> are added, a first poll reports signal 15, which is added
  again, a second poll reports signal 2, which is added again, and from then on every
  call returns 0.
\<close>

definition busy_kernel :: "nat \<Rightarrow> sysret" where
  "busy_kernel t =
     (if t = 0 then \<lparr>ret = 3, errno = 0, ev_filter = 0, ev_ident = 0\<rparr>
      else if t = 3 then \<lparr>ret = 1, errno = 0, ev_filter = - 6, ev_ident = 15\<rparr>
      else if t = 5 then \<lparr>ret = 1, errno = 0, ev_filter = - 6, ev_ident = 2\<rparr>
      else \<lparr>ret = 0, errno = 0, ev_filter = 0, ev_ident = 0\<rparr>)"

definition listened :: signalfd where
  "listened = \<lparr>fd = 3, desired = {2, 15}, polling = {2, 15}, pending = {}\<rparr>"

definition listened_world :: world where
  "listened_world = \<lparr>kernel = busy_kernel,
     calls = [SYS_kqueue, SYS_kevent_add 3 2, SYS_kevent_add 3 15]\<rparr>"

definition drained_once :: signalfd where
  "drained_once = \<lparr>fd = 3, desired = {2, 15}, polling = {2, 15}, pending = {15}\<rparr>"

definition drained_once_world :: world where
  "drained_once_world = \<lparr>kernel = busy_kernel,
     calls = [SYS_kqueue, SYS_kevent_add 3 2, SYS_kevent_add 3 15,
              SYS_kevent_poll 3, SYS_kevent_add 3 15]\<rparr>"

definition drained_twice :: signalfd where
  "drained_twice = \<lparr>fd = 3, desired = {2, 15}, polling = {2, 15}, pending = {2, 15}\<rparr>"

definition drained_twice_world :: world where
  "drained_twice_world = \<lparr>kernel = busy_kernel,
     calls = [SYS_kqueue, SYS_kevent_add 3 2, SYS_kevent_add 3 15,
              SYS_kevent_poll 3, SYS_kevent_add 3 15, SYS_kevent_poll 3, SYS_kevent_add 3 2]\<rparr>"

lemma world_eqI: "kernel w = K \<Longrightarrow> calls w = cs \<Longrightarrow> w = \<lparr>kernel = K, calls = cs\<rparr>"
  by (cases w) simp

lemma lsl_listen_kernel:
  assumes "lsl_listen maxsig args w = (Inr n, U, w')"
  shows "kernel w' = kernel w"
  using assms
proof (cases rule: lsl_listen_returns)
  case (listening S1 S2)
  from sfd_update_frame [OF listening(3)] show ?thesis by simp
qed

lemma listened_reachable: "reachable 128 listened listened_world"
proof -
  let ?w = "\<lparr>kernel = busy_kernel, calls = []\<rparr>"
  let ?X = "lsl_listen 128 [LNumber 2, LNumber 15] ?w"
  obtain r U w' where x: "?X = (r, U, w')" by (cases ?X)
  have "fst ?X = Inr 1" "udata (fst (snd ?X)) = listened"
    "calls (snd (snd ?X)) = calls listened_world"
    by code_simp+
  with x have r: "r = Inr 1" and U: "udata U = listened" and c: "calls w' = calls listened_world"
    by simp_all
  from x r have l: "lsl_listen 128 [LNumber 2, LNumber 15] ?w = (Inr 1, U, w')" by simp
  from lsl_listen_kernel [OF l] c have "w' = listened_world"
    by (simp add: listened_world_def world_eqI)
  with reachable.listen [OF l] U show ?thesis by simp
qed

lemma drained_once_query:
  "sfd_query 128 listened listened_world = Some (0, drained_once, drained_once_world)"
proof -
  have v: "(case sfd_query 128 listened listened_world of None \<Rightarrow> False
     | Some (e, S', w') \<Rightarrow> e = 0 \<and> S' = drained_once \<and> calls w' = calls drained_once_world)"
    by code_simp
  then obtain w' where q: "sfd_query 128 listened listened_world = Some (0, drained_once, w')"
    and c: "calls w' = calls drained_once_world"
    by (auto split: option.splits)
  from sfd_query_frame(3) [OF q] c have "w' = drained_once_world"
    by (simp add: drained_once_world_def listened_world_def world_eqI)
  with q show ?thesis by simp
qed

lemma drained_twice_query:
  "sfd_query 128 drained_once drained_once_world = Some (0, drained_twice, drained_twice_world)"
proof -
  have v: "(case sfd_query 128 drained_once drained_once_world of None \<Rightarrow> False
     | Some (e, S', w') \<Rightarrow> e = 0 \<and> S' = drained_twice \<and> calls w' = calls drained_twice_world)"
    by code_simp
  then obtain w' where q: "sfd_query 128 drained_once drained_once_world = Some (0, drained_twice, w')"
    and c: "calls w' = calls drained_twice_world"
    by (auto split: option.splits)
  from sfd_query_frame(3) [OF q] c have "w' = drained_twice_world"
    by (simp add: drained_twice_world_def drained_once_world_def world_eqI)
  with q show ?thesis by simp
qed

lemma drained_once_reachable: "reachable 128 drained_once drained_once_world"
  using listened_reachable drained_once_query by (rule reachable.drain)

lemma drained_twice_reachable: "reachable 128 drained_twice drained_twice_world"
  using drained_once_reachable drained_twice_query by (rule reachable.drain)


text \<open>A kernel whose \<^verbatim>\<open>kqueue\<close> returns descriptor 3 and whose every later call fails with
  \<^verbatim>\<open>EINVAL\<close> (22).\<close>

definition refusing_kernel :: "nat \<Rightarrow> sysret" where
  "refusing_kernel t =
     (if t = 0 then \<lparr>ret = 3, errno = 0, ev_filter = 0, ev_ident = 0\<rparr>
      else \<lparr>ret = - 1, errno = 22, ev_filter = 0, ev_ident = 0\<rparr>)"

definition refusing_world :: world where
  "refusing_world = \<lparr>kernel = refusing_kernel, calls = []\<rparr>"

lemma lsl_listen_args_error:
  "lsl_listen_args maxsig args index S = (Some err, S1) \<Longrightarrow> \<exists>j. err = ArgError j"
  by (induction args arbitrary: index S) (auto split: option.splits)

lemma lsl_listen_raises [consumes 1, case_names init update]:
  assumes "lsl_listen maxsig args w = (Inl (ListenError e), U, w')"
  obtains
    (init) S1 S2 where
      "lsl_listen_args maxsig args 1 (sfd_preinit lua_newuserdata) = (None, S1)"
      "sfd_init S1 w = (e, S2, issue SYS_kqueue w)" "e \<noteq> 0" "udata U = S2"
      "w' = issue SYS_kqueue w" "metatable U = Some LSL_CLASS"
  | (update) S1 S2 where
      "lsl_listen_args maxsig args 1 (sfd_preinit lua_newuserdata) = (None, S1)"
      "sfd_init S1 w = (0, S2, issue SYS_kqueue w)"
      "sfd_update maxsig S2 (issue SYS_kqueue w) = (e, udata U, w')" "e \<noteq> 0"
      "metatable U = Some LSL_CLASS"
proof -
  obtain r S1 where a: "lsl_listen_args maxsig args 1 (sfd_preinit lua_newuserdata) = (r, S1)"
    by (cases "lsl_listen_args maxsig args 1 (sfd_preinit lua_newuserdata)")
  obtain e2 S2 w2 where i: "sfd_init S1 w = (e2, S2, w2)" by (cases "sfd_init S1 w")
  obtain e3 S3 w3 where u: "sfd_update maxsig S2 w2 = (e3, S3, w3)"
    by (cases "sfd_update maxsig S2 w2")
  from sfd_init_result [OF i] have w2: "w2 = issue SYS_kqueue w" by simp
  from assms a lsl_listen_args_error [of maxsig args 1 "sfd_preinit lua_newuserdata" _ S1]
  have r: "r = None" by (auto simp: lsl_listen_def split: option.splits)
  show thesis
  proof (cases "e2 = 0")
    case False
    with assms a i r have "e = e2" "U = \<lparr>udata = S2, metatable = Some LSL_CLASS\<rparr>" "w' = w2"
      by (auto simp: lsl_listen_def Let_def)
    with a i r w2 False init show thesis by simp
  next
    case True
    with assms a i u r have "e3 \<noteq> 0" "e = e3"
        "U = \<lparr>udata = S3, metatable = Some LSL_CLASS\<rparr>" "w' = w3"
      by (auto simp: lsl_listen_def Let_def split: if_splits)
    with a i u r w2 True update show thesis by simp
  qed
qed

text \<open>The lowest-numbered signal of a set, if it has one.\<close>

definition lowest :: "int set \<Rightarrow> int option" where
  "lowest P = (if P = {} then None else Some (Min P))"

lemma events_requested_extend:
  assumes "events_requested w" and "kernel w' = kernel w" and "calls w' = calls w @ cs"
    and "\<forall>j<length cs. reports (cs ! j) (kernel w (length (calls w) + j)) = None"
  shows "events_requested w'"
  unfolding events_requested_def
proof
  fix t assume "t \<in> {..<length (calls w')}"
  then have t: "t < length (calls w) + length cs" using assms(3) by simp
  show "case reports (calls w' ! t) (kernel w' t) of None \<Rightarrow> True
      | Some i \<Rightarrow> i \<in> requested (take t (calls w'))"
  proof (cases "t < length (calls w)")
    case True
    then have "t \<in> {..<length (calls w)}" by simp
    with assms(1) have "case reports (calls w ! t) (kernel w t) of None \<Rightarrow> True
        | Some i \<Rightarrow> i \<in> requested (take t (calls w))"
      unfolding events_requested_def by blast
    moreover from True assms(3) have "take t (calls w') = take t (calls w)"
      "calls w' ! t = calls w ! t" by (simp_all add: nth_append)
    ultimately show ?thesis using assms(2) by (simp split: option.splits)
  next
    case False
    then obtain j where j: "t = length (calls w) + j" "j < length cs"
      using t by (metis add_diff_inverse_nat nat_add_left_cancel_less)
    with assms(3) have "calls w' ! t = cs ! j" by (simp add: nth_append)
    with assms(2,4) j show ?thesis by simp
  qed
qed

lemma reports_update_call: "c \<in> update_calls maxsig S \<Longrightarrow> reports c r = None"
  by (auto simp: update_calls_def round_call_def)

lemma reports_not_one: "ret r \<noteq> 1 \<Longrightarrow> reports c r = None"
  by (cases c) auto

lemma lsl_wait_returns_lowest:
  assumes "reachable maxsig S w" and "lsl_wait maxsig S w = Some (Inr r, S', w')"
    and "events_requested w'"
  shows "\<exists>S1. sfd_query maxsig S w = Some (0, S1, w') \<and> r = lowest (pending S1) \<and>
           pending S' = pending S1 - set_option r"
  using assms(2)
proof (cases rule: lsl_wait_cases)
  case (error e)
  then show ?thesis by simp
next
  case (signal S1 s)
  from assms(1) signal(1) have "reachable maxsig S1 w'" by (rule reachable.drain)
  then have sub: "pending S1 \<subseteq> scanned maxsig"
    using assms(3) by (rule reachable_pending_scanned)
  from sfd_diff_least_pending [OF sub] signal(2,3)
  have s: "pending S1 \<noteq> {}" "s = Min (pending S1)" by (auto split: if_splits)
  from sfd_diff_found(1) [OF signal(2,3)] have "valid_signo maxsig s"
    by (simp add: scanned_def valid_signo_def)
  with signal(5) have "pending S' = pending S1 - {s}" by (simp add: sigdelset_def)
  with s signal(1,4) show ?thesis by (simp add: lowest_def)
next
  case none
  from assms(1) none(1) have "reachable maxsig S' w'" by (rule reachable.drain)
  then have sub: "pending S' \<subseteq> scanned maxsig"
    using assms(3) by (rule reachable_pending_scanned)
  have "pending S' = {}"
  proof (rule ccontr)
    assume ne: "pending S' \<noteq> {}"
    have "finite (pending S')" using sub scanned_finite by (rule finite_subset)
    then have "Min (pending S') \<in> pending S'" using ne by (rule Min_in)
    with sub have "Min (pending S') \<noteq> 0" by (auto simp: scanned_def)
    with sfd_diff_least_pending [OF sub] none(2) ne show False by simp
  qed
  with none(1,3) show ?thesis by (simp add: lowest_def)
qed

lemma lsl_wait_quiet:
  assumes re: "reachable maxsig S w" and er: "events_requested w" and pa: "poll_answers w k"
    and quiet: "\<forall>t\<ge>length (calls w) + k. ret (kernel w t) = 0"
  shows "\<exists>S' w'. lsl_wait maxsig S w = Some (Inr (lowest (pending S)), S', w') \<and>
           pending S' = pending S - set_option (lowest (pending S)) \<and>
           reachable maxsig S' w' \<and> events_requested w' \<and> poll_answers w' 0 \<and>
           (\<forall>t\<ge>length (calls w'). ret (kernel w' t) = 0)"
proof -
  let ?p = "SYS_kevent_poll (fd S)"
  let ?w1 = "polled (Suc k) S w"
  from quiet have r0: "ret (next_reply w k) = 0" by (simp add: next_reply_def)
  obtain e S1 w1 where u: "sfd_update maxsig S ?w1 = (e, S1, w1)"
    by (cases "sfd_update maxsig S ?w1")
  from r0 u have "after_poll maxsig S (next_reply w k) ?w1 = (e, S1, w1)"
    by (simp add: after_poll_def)
  with sfd_query_answer [OF pa, of maxsig S]
  have q: "sfd_query maxsig S w = Some (e, S1, w1)" by simp
  have "\<forall>t\<ge>length (calls ?w1). ret (kernel ?w1 t) = 0" using quiet by simp
  with u have e: "e = 0" by (rule sfd_update_succeeds)
  note f = sfd_update_frame [OF u]
  from f have k1: "kernel w1 = kernel w" and p1: "pending S1 = pending S" by simp_all
  from sfd_update_calls [OF u] obtain cs where
    cs: "calls w1 = calls w @ (replicate (Suc k) ?p @ cs)" "set cs \<subseteq> update_calls maxsig S"
    by auto
  have er1: "events_requested w1"
  proof (rule events_requested_extend [OF er k1 cs(1)], intro allI impI)
    fix j assume j: "j < length (replicate (Suc k) ?p @ cs)"
    show "reports ((replicate (Suc k) ?p @ cs) ! j) (kernel w (length (calls w) + j)) = None"
    proof (cases "j < Suc k")
      case True
      have "ret (kernel w (length (calls w) + j)) \<noteq> 1"
      proof (cases "j < k")
        case True
        with pa have "interrupted (next_reply w j)" by (simp add: poll_answers_def)
        then show ?thesis by (simp add: interrupted_def next_reply_def)
      next
        case False
        with True have "j = k" by simp
        with r0 show ?thesis by (simp add: next_reply_def)
      qed
      then show ?thesis by (rule reports_not_one)
    next
      case False
      with j have "(replicate (Suc k) ?p @ cs) ! j = cs ! (j - Suc k)" "j - Suc k < length cs"
        by (simp_all add: nth_append del: replicate.simps)
      then have "(replicate (Suc k) ?p @ cs) ! j \<in> set cs" by simp
      with cs(2) show ?thesis using reports_update_call by blast
    qed
  qed
  from re q have re1: "reachable maxsig S1 w1" by (rule reachable.drain)
  then have sub: "pending S \<subseteq> scanned maxsig"
    using reachable_pending_scanned [OF re1 er1] p1 by simp
  have fin: "finite (pending S)" using sub scanned_finite by (rule finite_subset)
  have d: "sfd_diff maxsig (pending S1) sigemptyset = (if pending S = {} then 0 else Min (pending S))"
    using sfd_diff_least_pending [OF sub] p1 by simp
  have len: "length (calls w) + k \<le> length (calls w1)" using cs(1) by simp
  have tail: "\<forall>t\<ge>length (calls w1). ret (kernel w1 t) = 0" using quiet len k1 by simp
  then have pa1: "poll_answers w1 0"
    by (simp add: poll_answers_def interrupted_def next_reply_def)
  show ?thesis
  proof (cases "pending S = {}")
    case True
    with q e d have l: "lsl_wait maxsig S w = Some (Inr None, S1, w1)"
      by (simp add: lsl_wait_def)
    from re l have "reachable maxsig S1 w1" by (rule reachable.wait)
    with l True p1 er1 pa1 tail show ?thesis by (auto simp: lowest_def)
  next
    case False
    let ?s = "Min (pending S)"
    let ?S' = "S1\<lparr>pending := sigdelset maxsig (pending S1) ?s\<rparr>"
    from fin False have m: "?s \<in> pending S" by (rule Min_in)
    with sub have v: "valid_signo maxsig ?s" "?s \<noteq> 0"
      by (auto simp: scanned_def valid_signo_def)
    from q e d False v(2) have l: "lsl_wait maxsig S w = Some (Inr (Some ?s), ?S', w1)"
      by (simp add: lsl_wait_def Let_def)
    from re l have "reachable maxsig ?S' w1" by (rule reachable.wait)
    moreover from v(1) p1 have "pending ?S' = pending S - {?s}" by (simp add: sigdelset_def)
    ultimately show ?thesis using l False er1 pa1 tail by (auto simp: lowest_def)
  qed
qed

text \<open>
  When \<open>sfd_update\<close> returns a nonzero value, its last system call is the one that
  failed, and the value is the \<^verbatim>\<open>errno\<close> of that call.
\<close>

lemma sfd_update_error:
  "sfd_update maxsig S w = (e, S', w') \<Longrightarrow> e \<noteq> 0 \<Longrightarrow>
     length (calls w) < length (calls w') \<and>
     failed (last (calls w')) (kernel w (length (calls w') - 1)) \<and>
     e = errno (kernel w (length (calls w') - 1))"
proof (induction maxsig S w rule: sfd_update_induct)
  case (round maxsig S w)
  from round.prems(1) show ?case
  proof (cases rule: sfd_update_cases)
    case none
    with round.prems(2) show ?thesis by simp
  next
    case (fail s)
    then show ?thesis by (simp add: round_call_def)
  next
    case (step s)
    from round.IH [OF step round.prems(2)] show ?thesis by simp
  qed
qed

text \<open>A kernel that has no descriptor left: every call fails with \<^verbatim>\<open>EMFILE\<close> (24).\<close>

definition exhausted_world :: world where
  "exhausted_world =
     \<lparr>kernel = (\<lambda>t. \<lparr>ret = - 1, errno = 24, ev_filter = 0, ev_ident = 0\<rparr>), calls = []\<rparr>"

section \<open>The difference scan: lowest differing signal\<close>

text \<open>
  C3, as stated: for every pair of signal sets the scan returns the lowest signal on which
  they differ, and 0 exactly when they are equal. The scan stops below 32, so this
  fails for sets that differ only on a signal from 32 upwards: on a platform with 128
  signals, the set holding signal 32 and the empty set differ and the scan returns 0.
\<close>

theorem sfd_diff_beyond_scan_counterexample:
  "sigaddset 128 sigemptyset 32 \<noteq> sigemptyset \<and>
   sfd_diff 128 (sigaddset 128 sigemptyset 32) sigemptyset = 0"
  by code_simp

text \<open>
  C3, amended: for every pair of signal sets, the scan returns 0 exactly when the two sets
  hold the same signals among the valid signals 1..31, and otherwise returns the lowest
  valid signal in 1..31 on which they differ.
\<close>

theorem sfd_diff_lowest_difference:
  "(sfd_diff maxsig a b = 0 \<longleftrightarrow> a \<inter> scanned maxsig = b \<inter> scanned maxsig) \<and>
   (sfd_diff maxsig a b \<noteq> 0 \<longrightarrow>
      sfd_diff maxsig a b \<in> scanned maxsig \<and>
      (sfd_diff maxsig a b \<in> a) \<noteq> (sfd_diff maxsig a b \<in> b) \<and>
      (\<forall>t\<in>scanned maxsig. t < sfd_diff maxsig a b \<longrightarrow> (t \<in> a) = (t \<in> b)))"
proof (intro conjI impI ballI)
  show "sfd_diff maxsig a b = 0 \<longleftrightarrow> a \<inter> scanned maxsig = b \<inter> scanned maxsig"
    by (rule sfd_diff_zero)
next
  assume nz: "sfd_diff maxsig a b \<noteq> 0"
  show "sfd_diff maxsig a b \<in> scanned maxsig"
    by (rule sfd_diff_found(1) [OF refl nz])
  show "(sfd_diff maxsig a b \<in> a) \<noteq> (sfd_diff maxsig a b \<in> b)"
    by (rule sfd_diff_found(2) [OF refl nz])
  fix t assume "t \<in> scanned maxsig" and "t < sfd_diff maxsig a b"
  then show "(t \<in> a) = (t \<in> b)"
    by (rule sfd_diff_found(3) [OF refl nz])
qed

theorem sfd_diff_lowest_difference_witness:
  "sfd_diff 128 {2, 15, 40} {2, 9, 15} = 9 \<and>
   9 \<in> scanned 128 \<and> ((9::int) \<in> {2, 15, 40}) \<noteq> ((9::int) \<in> {2, 9, 15}) \<and>
   ((2::int) \<in> {2, 15, 40}) = ((2::int) \<in> {2, 9, 15}) \<and>
   sfd_diff 128 {7, 40} {7, 50} = 0 \<and> {7, 40} \<inter> scanned 128 = {7, 50} \<inter> scanned 128"
proof -
  have v: "sfd_diff 128 {2, 15, 40} {2, 9, 15} = 9" by code_simp
  have z: "sfd_diff 128 {7, 40} {7, 50} = 0" by code_simp
  from sfd_diff_lowest_difference [of 128 "{2, 15, 40}" "{2, 9, 15}"]
    sfd_diff_lowest_difference [of 128 "{7, 40}" "{7, 50}"] v z
  show ?thesis by simp
qed

section \<open>Reconciliation is idempotent\<close>

text \<open>
  C7: after \<open>sfd_update\<close> has returned 0 (every failed system call of the run having
  left a nonzero \<^verbatim>\<open>errno\<close>), the scan finds no difference between desired and polling,
  and a second \<open>sfd_update\<close> returns 0 at once: the struct and the world, and so the log
  of system calls, are the ones it was given.
\<close>

theorem sfd_update_idempotent:
  assumes "sfd_update maxsig S w = (0, S', w')" and "errno_set w'"
  shows "sfd_diff maxsig (desired S') (polling S') = 0 \<and> sfd_update maxsig S' w' = (0, S', w')"
proof -
  have "polling S' \<inter> scanned maxsig = desired S \<inter> scanned maxsig"
    using assms(1) refl assms(2) by (rule sfd_update_converged)
  moreover have "desired S' = desired S" using sfd_update_frame [OF assms(1)] by simp
  ultimately have z: "sfd_diff maxsig (desired S') (polling S') = 0"
    by (simp add: sfd_diff_zero)
  then show ?thesis by (simp add: sfd_update_settled)
qed

theorem sfd_update_idempotent_witness:
  "fst (sfd_update 128 two_signals fresh_world) = 0 \<and>
   calls (snd (snd (sfd_update 128 two_signals fresh_world))) =
     [SYS_kevent_add 3 2, SYS_kevent_add 3 15] \<and>
   errno_set (snd (snd (sfd_update 128 two_signals fresh_world))) \<and>
   sfd_update 128 (fst (snd (sfd_update 128 two_signals fresh_world)))
       (snd (snd (sfd_update 128 two_signals fresh_world))) =
     (0, snd (sfd_update 128 two_signals fresh_world))"
proof -
  obtain e S' w' where r: "sfd_update 128 two_signals fresh_world = (e, S', w')"
    by (cases "sfd_update 128 two_signals fresh_world") 
  have e: "fst (sfd_update 128 two_signals fresh_world) = 0" by code_simp
  have c: "calls (snd (snd (sfd_update 128 two_signals fresh_world))) =
     [SYS_kevent_add 3 2, SYS_kevent_add 3 15]" by code_simp
  have s: "errno_set (snd (snd (sfd_update 128 two_signals fresh_world)))" by code_simp
  from e r have r0: "sfd_update 128 two_signals fresh_world = (0, S', w')" by simp
  from s r have "errno_set w'" by simp
  from sfd_update_idempotent [OF r0 this] e c s r show ?thesis by simp
qed

section \<open>Construction arms the desired signals\<close>

text \<open>
  C1, as stated: whatever the arguments, a listener that \<open>lsl_listen\<close> returns has polling
  equal to desired. With 128 signals and the single argument 32, no call fails, the
  listener is returned, desired holds 32 and polling is empty: the scan of \<open>sfd_update\<close>
  never reaches signal 32.
\<close>

theorem lsl_listen_signal_32_counterexample:
  "fst (lsl_listen 128 [LNumber 32] fresh_world) = Inr 1 \<and>
   calls (snd (snd (lsl_listen 128 [LNumber 32] fresh_world))) = [SYS_kqueue] \<and>
   desired (udata (fst (snd (lsl_listen 128 [LNumber 32] fresh_world)))) = {32} \<and>
   polling (udata (fst (snd (lsl_listen 128 [LNumber 32] fresh_world)))) = {} \<and>
   polling (udata (fst (snd (lsl_listen 128 [LNumber 32] fresh_world)))) \<noteq>
     desired (udata (fst (snd (lsl_listen 128 [LNumber 32] fresh_world))))"
  by code_simp

text \<open>
  C1, amended: when \<open>lsl_listen\<close> returns normally (and every failed system call of the
  run left a nonzero \<^verbatim>\<open>errno\<close>), desired holds the valid signal numbers among the
  arguments and polling holds exactly those of them that lie in 1..31.
\<close>

theorem lsl_listen_arms_scanned_signals:
  assumes "lsl_listen maxsig args w = (Inr n, U, w')" and "errno_set w'"
  shows "desired (udata U) = {s. valid_signo maxsig s \<and> LNumber s \<in> set args} \<and>
         polling (udata U) = desired (udata U) \<inter> scanned maxsig"
  using assms(1)
proof (cases rule: lsl_listen_returns)
  case (listening S1 S2)
  from lsl_listen_args_result [OF listening(1)]
  have S1: "desired S1 = {s. valid_signo maxsig s \<and> LNumber s \<in> set args}" "polling S1 = {}"
    by simp_all
  from sfd_init_result [OF listening(2)] S1
  have S2: "desired S2 = {s. valid_signo maxsig s \<and> LNumber s \<in> set args}" "polling S2 = {}"
    by simp_all
  have d: "desired (udata U) = desired S2"
    using sfd_update_frame [OF listening(3)] by simp
  have "polling (udata U) - scanned maxsig = {}"
    using sfd_update_polling [OF listening(3)] S2 by simp
  moreover have "polling (udata U) \<inter> scanned maxsig = desired S2 \<inter> scanned maxsig"
    using listening(3) refl assms(2) by (rule sfd_update_converged)
  ultimately have "polling (udata U) = desired S2 \<inter> scanned maxsig" by blast
  with d S2 show ?thesis by simp
qed

theorem lsl_listen_arms_scanned_signals_witness:
  "fst (lsl_listen 128 [LNumber 2, LNumber 15, LNumber 40] fresh_world) = Inr 1 \<and>
   errno_set (snd (snd (lsl_listen 128 [LNumber 2, LNumber 15, LNumber 40] fresh_world))) \<and>
   polling (udata (fst (snd (lsl_listen 128 [LNumber 2, LNumber 15, LNumber 40] fresh_world)))) =
     {2, 15} \<and>
   polling (udata (fst (snd (lsl_listen 128 [LNumber 2, LNumber 15, LNumber 40] fresh_world)))) =
     desired (udata (fst (snd (lsl_listen 128 [LNumber 2, LNumber 15, LNumber 40] fresh_world))))
       \<inter> scanned 128"
proof -
  let ?X = "lsl_listen 128 [LNumber 2, LNumber 15, LNumber 40] fresh_world"
  obtain r U w' where x: "?X = (r, U, w')" by (cases ?X)
  have r: "fst ?X = Inr 1" by code_simp
  have e: "errno_set (snd (snd ?X))" by code_simp
  have p: "polling (udata (fst (snd ?X))) = {2, 15}" by code_simp
  from r x have x1: "?X = (Inr 1, U, w')" by simp
  from e x have "errno_set w'" by simp
  from lsl_listen_arms_scanned_signals [OF x1 this] r e p x show ?thesis by simp
qed

section \<open>Every successful drain re-arms\<close>

text \<open>
  C10, as stated: every successful drain ends with polling equal to desired. The listener
  built from the arguments 2 and 32 (128 signals, no call fails) has desired {2, 32} and
  polling {2}; a drain that finds no event returns 0 and leaves them so.
\<close>

theorem sfd_query_signal_32_counterexample:
  "(case sfd_query 128 (udata (fst (snd (lsl_listen 128 [LNumber 2, LNumber 32] fresh_world))))
          (snd (snd (lsl_listen 128 [LNumber 2, LNumber 32] fresh_world))) of
      None \<Rightarrow> False
    | Some (e, S', w') \<Rightarrow>
        e = 0 \<and> calls w' = [SYS_kqueue, SYS_kevent_add 0 2, SYS_kevent_poll 0] \<and>
        desired S' = {2, 32} \<and> polling S' = {2} \<and> polling S' \<noteq> desired S')"
  by code_simp

text \<open>
  C10, amended: every drain that returns 0 (every failed system call of the run having
  left a nonzero \<^verbatim>\<open>errno\<close>) ends with polling and desired holding the same signals among
  the valid signals 1..31, whether or not the poll returned an event and whatever polling
  was before; desired is unchanged, and if polling held no signal outside 1..31 before,
  polling is afterwards exactly the desired signals in 1..31.
\<close>

theorem sfd_query_rearms_scanned_signals:
  assumes "sfd_query maxsig S w = Some (0, S', w')" and "errno_set w'"
  shows "desired S' = desired S \<and>
         polling S' \<inter> scanned maxsig = desired S' \<inter> scanned maxsig \<and>
         (polling S \<subseteq> scanned maxsig \<longrightarrow> polling S' = desired S' \<inter> scanned maxsig)"
proof -
  have d: "desired S' = desired S" by (rule sfd_query_frame(2) [OF assms(1)])
  have c: "polling S' \<inter> scanned maxsig = desired S \<inter> scanned maxsig"
    using assms by (rule sfd_query_converged)
  have "polling S' - scanned maxsig \<subseteq> polling S - scanned maxsig"
    by (rule sfd_query_polling(2) [OF assms(1)])
  with c d show ?thesis by auto
qed

theorem sfd_query_rearms_scanned_signals_witness:
  "(case sfd_query 128 pending_15 stormy_world of
      None \<Rightarrow> False
    | Some (e, S', w') \<Rightarrow>
        e = 0 \<and> errno_set w' \<and>
        calls w' = [SYS_kevent_poll 3, SYS_kevent_poll 3, SYS_kevent_add 3 15] \<and>
        polling S' = {2, 15} \<and> polling S' = desired S' \<inter> scanned 128)"
proof -
  have v: "(case sfd_query 128 pending_15 stormy_world of
      None \<Rightarrow> False
    | Some (e, S', w') \<Rightarrow>
        e = 0 \<and> errno_set w' \<and>
        calls w' = [SYS_kevent_poll 3, SYS_kevent_poll 3, SYS_kevent_add 3 15] \<and>
        polling S' = {2, 15} \<and> polling pending_15 \<subseteq> scanned 128)"
    by code_simp
  then obtain S' w' where q: "sfd_query 128 pending_15 stormy_world = Some (0, S', w')"
    and e: "errno_set w'" and p: "polling pending_15 \<subseteq> scanned 128"
    by (auto split: option.splits)
  from sfd_query_rearms_scanned_signals [OF q e] p
  have "polling S' = desired S' \<inter> scanned 128" by blast
  with v q show ?thesis by simp
qed


section \<open>Repeated deliveries coalesce\<close>

text \<open>
  C5: when the poll that answers a drain (the first one that is not interrupted) reports
  signal \<open>i\<close>, the drain returns and pending has become \<open>sigaddset pending i\<close>: pending is
  a set, so the delivery of a signal that is already pending leaves pending as it was.
\<close>

theorem sfd_query_coalesces:
  assumes "poll_answers w k" and "1 = ret (next_reply w k)"
    and "ev_filter (next_reply w k) = EVFILT_SIGNAL" and "ev_ident (next_reply w k) = i"
  shows "\<exists>e S' w'. sfd_query maxsig S w = Some (e, S', w') \<and>
           pending S' = sigaddset maxsig (pending S) i \<and>
           (i \<in> pending S \<longrightarrow> pending S' = pending S)"
proof -
  obtain e S' w' where a: "after_poll maxsig S (next_reply w k) (polled (Suc k) S w) = (e, S', w')"
    by (cases "after_poll maxsig S (next_reply w k) (polled (Suc k) S w)")
  from sfd_query_answer [OF assms(1), of maxsig S] a
  have q: "sfd_query maxsig S w = Some (e, S', w')" by simp
  from after_poll_frame(4) [OF a] assms(2,3,4)
  have p: "pending S' = sigaddset maxsig (pending S) i" by simp
  then have "i \<in> pending S \<longrightarrow> pending S' = pending S" by (auto simp: sigaddset_def)
  with q p show ?thesis by blast
qed

theorem sfd_query_coalesces_witness:
  "poll_answers stormy_world 1 \<and> 1 = ret (next_reply stormy_world 1) \<and>
   ev_filter (next_reply stormy_world 1) = EVFILT_SIGNAL \<and>
   ev_ident (next_reply stormy_world 1) = 15 \<and> 15 \<in> pending pending_15 \<and>
   (\<exists>e S' w'. sfd_query 128 pending_15 stormy_world = Some (e, S', w') \<and>
      pending S' = pending pending_15)"
proof -
  have a: "poll_answers stormy_world 1"
    by (simp add: poll_answers_def interrupted_def next_reply_def stormy_world_def
        stormy_kernel_def EINTR_def)
  have b: "1 = ret (next_reply stormy_world 1)"
    "ev_filter (next_reply stormy_world 1) = EVFILT_SIGNAL"
    "ev_ident (next_reply stormy_world 1) = 15"
    by (simp_all add: next_reply_def stormy_world_def stormy_kernel_def EVFILT_SIGNAL_def)
  have c: "15 \<in> pending pending_15" by (simp add: pending_15_def)
  from sfd_query_coalesces [OF a b, of 128 pending_15] a b c show ?thesis by blast
qed

section \<open>Interrupted polls are retried\<close>






section \<open>Failed construction\<close>

text \<open>
  C2, as stated: when construction fails, the listener is torn down before the error
  reaches the caller. With a kernel that opens descriptor 3 and then refuses to add signal
  2, \<open>lsl_listen\<close> raises the error after two system calls, neither of them a
  \<^verbatim>\<open>close\<close>; the struct it leaves behind still holds descriptor 3 and the desired set.
\<close>

theorem lsl_listen_no_teardown_counterexample:
  "fst (lsl_listen 128 [LNumber 2] refusing_world) = Inl (ListenError 22) \<and>
   calls (snd (snd (lsl_listen 128 [LNumber 2] refusing_world))) =
     [SYS_kqueue, SYS_kevent_add 3 2] \<and>
   SYS_close 3 \<notin> set (calls (snd (snd (lsl_listen 128 [LNumber 2] refusing_world)))) \<and>
   udata (fst (snd (lsl_listen 128 [LNumber 2] refusing_world))) =
     \<lparr>fd = 3, desired = {2}, polling = {}, pending = {}\<rparr>"
  by code_simp

text \<open>
  C2, amended: when the arguments are numbers and opening the backend (\<open>sfd_init\<close>) or
  the first reconciliation (\<open>sfd_update\<close>) fails with error \<open>e\<close>, \<open>lsl_listen\<close> raises
  that error, the \<^verbatim>\<open>errno\<close> of the system call that failed, and returns no listener. It
  does so without tearing the listener down: it has made no \<^verbatim>\<open>close\<close> call, and the struct
  still holds what \<^verbatim>\<open>kqueue\<close> returned and the desired set. The userdata was given the
  listener's metatable before the backend was opened, so that the collector's finalizer
  \<open>lsl__gc\<close> applies to it; \<open>lsl__gc\<close> on that struct closes the descriptor \<^verbatim>\<open>kqueue\<close>
  returned and leaves the descriptor field at -1 and the three sets empty.
\<close>

theorem lsl_listen_failure_left_to_gc:
  assumes args: "lsl_listen_args maxsig args 1 (sfd_preinit lua_newuserdata) = (None, S1)"
    and fails: "sfd_init S1 w = (e, S3, w3) \<and> e \<noteq> 0 \<or>
      (\<exists>S2 w2. sfd_init S1 w = (0, S2, w2) \<and> sfd_update maxsig S2 w2 = (e, S3, w3) \<and> e \<noteq> 0)"
  shows "lsl_listen maxsig args w =
           (Inl (ListenError e), \<lparr>udata = S3, metatable = Some LSL_CLASS\<rparr>, w3) \<and>
         failed (last (calls w3)) (kernel w (length (calls w3) - 1)) \<and>
         e = errno (kernel w (length (calls w3) - 1)) \<and>
         (\<exists>cs. calls w3 = calls w @ SYS_kqueue # cs \<and> (\<forall>d. SYS_close d \<notin> set cs)) \<and>
         fd S3 = ret (kernel w (length (calls w))) \<and> desired S3 = desired S1 \<and>
         fd (fst (lsl__gc S3 w3)) = - 1 \<and> desired (fst (lsl__gc S3 w3)) = {} \<and>
         polling (fst (lsl__gc S3 w3)) = {} \<and> pending (fst (lsl__gc S3 w3)) = {} \<and>
         calls (snd (lsl__gc S3 w3)) = calls w3 @ [SYS_close (ret (kernel w (length (calls w))))]"
proof -
  have gc: "lsl__gc S3 w3 = (sfd_preinit S3, issue (SYS_close (fd S3)) w3)"
    by (simp add: lsl__gc_def sfd_destroy_def do_syscall_issue)
  from fails show ?thesis
  proof (elim disjE conjE exE)
    assume i: "sfd_init S1 w = (e, S3, w3)" and nz: "e \<noteq> 0"
    note r = sfd_init_result [OF i]
    from args i nz have l: "lsl_listen maxsig args w =
        (Inl (ListenError e), \<lparr>udata = S3, metatable = Some LSL_CLASS\<rparr>, w3)"
      by (simp add: lsl_listen_def)
    from r nz have m: "ret (kernel w (length (calls w))) = - 1"
      "e = errno (kernel w (length (calls w)))" by (auto split: if_splits)
    from r have c: "calls w3 = calls w @ SYS_kqueue # []" by simp
    then have "\<exists>cs. calls w3 = calls w @ SYS_kqueue # cs \<and> (\<forall>d. SYS_close d \<notin> set cs)"
      by simp
    with l m c r gc show ?thesis by simp
  next
    fix S2 w2
    assume i: "sfd_init S1 w = (0, S2, w2)" and u: "sfd_update maxsig S2 w2 = (e, S3, w3)"
      and nz: "e \<noteq> 0"
    note r = sfd_init_result [OF i]
    note f = sfd_update_frame [OF u]
    from args i u nz have l: "lsl_listen maxsig args w =
        (Inl (ListenError e), \<lparr>udata = S3, metatable = Some LSL_CLASS\<rparr>, w3)"
      by (simp add: lsl_listen_def)
    from sfd_update_error [OF u nz] r
    have m: "failed (last (calls w3)) (kernel w (length (calls w3) - 1))"
      "e = errno (kernel w (length (calls w3) - 1))" by simp_all
    from sfd_update_calls [OF u] r obtain cs where
      cs: "calls w3 = calls w @ SYS_kqueue # cs" "set cs \<subseteq> update_calls maxsig S2" by auto
    from cs(2) have "\<forall>d. SYS_close d \<notin> set cs"
      by (auto simp: update_calls_def round_call_def split: if_splits)
    with cs(1) have c: "\<exists>cs. calls w3 = calls w @ SYS_kqueue # cs \<and> (\<forall>d. SYS_close d \<notin> set cs)"
      by blast
    from r f have d: "fd S3 = ret (kernel w (length (calls w)))" "desired S3 = desired S1"
      by simp_all
    from l m c d gc show ?thesis by simp
  qed
qed


theorem lsl_listen_failure_left_to_gc_witness:
  "fst (lsl_listen 128 [LNumber 2] refusing_world) = Inl (ListenError 22) \<and>
   metatable (fst (snd (lsl_listen 128 [LNumber 2] refusing_world))) = Some LSL_CLASS \<and>
   fd (udata (fst (snd (lsl_listen 128 [LNumber 2] refusing_world)))) = 3 \<and>
   calls (snd (snd (lsl_listen 128 [LNumber 2] refusing_world))) =
     [SYS_kqueue, SYS_kevent_add 3 2] \<and>
   fd (fst (lsl__gc (udata (fst (snd (lsl_listen 128 [LNumber 2] refusing_world))))
              (snd (snd (lsl_listen 128 [LNumber 2] refusing_world))))) = - 1 \<and>
   desired (fst (lsl__gc (udata (fst (snd (lsl_listen 128 [LNumber 2] refusing_world))))
              (snd (snd (lsl_listen 128 [LNumber 2] refusing_world))))) = {} \<and>
   calls (snd (lsl__gc (udata (fst (snd (lsl_listen 128 [LNumber 2] refusing_world))))
                 (snd (snd (lsl_listen 128 [LNumber 2] refusing_world))))) =
     [SYS_kqueue, SYS_kevent_add 3 2, SYS_close 3] \<and>
   fst (lsl_listen 128 [LNumber 2] exhausted_world) = Inl (ListenError 24) \<and>
   metatable (fst (snd (lsl_listen 128 [LNumber 2] exhausted_world))) = Some LSL_CLASS \<and>
   calls (snd (snd (lsl_listen 128 [LNumber 2] exhausted_world))) = [SYS_kqueue] \<and>
   calls (snd (lsl__gc (udata (fst (snd (lsl_listen 128 [LNumber 2] exhausted_world))))
                 (snd (snd (lsl_listen 128 [LNumber 2] exhausted_world))))) =
     [SYS_kqueue, SYS_close (- 1)]"
proof -
  let ?S1 = "\<lparr>fd = - 1, desired = {2}, polling = {}, pending = {}\<rparr>"
  have a: "lsl_listen_args 128 [LNumber 2] 1 (sfd_preinit lua_newuserdata) = (None, ?S1)"
    by code_simp
  \<comment> \<open>the first reconciliation fails\<close>
  obtain e2 S2 w2 where i: "sfd_init ?S1 refusing_world = (e2, S2, w2)"
    by (cases "sfd_init ?S1 refusing_world")
  obtain e S3 w3 where u: "sfd_update 128 S2 w2 = (e, S3, w3)"
    by (cases "sfd_update 128 S2 w2")
  have "fst (sfd_init ?S1 refusing_world) = 0" by code_simp
  with i have e2: "e2 = 0" by simp
  have "fst (sfd_update 128 (fst (snd (sfd_init ?S1 refusing_world)))
      (snd (snd (sfd_init ?S1 refusing_world)))) = 22" by code_simp
  with i u have e: "e = 22" by simp
  have k: "ret (kernel refusing_world (length (calls refusing_world))) = 3" by code_simp
  have c: "calls (snd (snd (lsl_listen 128 [LNumber 2] refusing_world))) =
      [SYS_kqueue, SYS_kevent_add 3 2]" by code_simp
  from i u e2 e have "sfd_init ?S1 refusing_world = (22, S3, w3) \<and> (22::int) \<noteq> 0 \<or>
      (\<exists>S2 w2. sfd_init ?S1 refusing_world = (0, S2, w2) \<and>
         sfd_update 128 S2 w2 = (22, S3, w3) \<and> (22::int) \<noteq> 0)" by auto
  from lsl_listen_failure_left_to_gc [OF a this] k c
  have 1: "fst (lsl_listen 128 [LNumber 2] refusing_world) = Inl (ListenError 22)"
    "metatable (fst (snd (lsl_listen 128 [LNumber 2] refusing_world))) = Some LSL_CLASS"
    "fd (udata (fst (snd (lsl_listen 128 [LNumber 2] refusing_world)))) = 3"
    "fd (fst (lsl__gc (udata (fst (snd (lsl_listen 128 [LNumber 2] refusing_world))))
              (snd (snd (lsl_listen 128 [LNumber 2] refusing_world))))) = - 1"
    "desired (fst (lsl__gc (udata (fst (snd (lsl_listen 128 [LNumber 2] refusing_world))))
              (snd (snd (lsl_listen 128 [LNumber 2] refusing_world))))) = {}"
    "calls (snd (lsl__gc (udata (fst (snd (lsl_listen 128 [LNumber 2] refusing_world))))
                 (snd (snd (lsl_listen 128 [LNumber 2] refusing_world))))) =
     [SYS_kqueue, SYS_kevent_add 3 2, SYS_close 3]"
    by simp_all
  \<comment> \<open>opening the backend fails\<close>
  obtain e' S' w' where i': "sfd_init ?S1 exhausted_world = (e', S', w')"
    by (cases "sfd_init ?S1 exhausted_world")
  have "fst (sfd_init ?S1 exhausted_world) = 24" by code_simp
  with i' have e': "e' = 24" by simp
  have k': "ret (kernel exhausted_world (length (calls exhausted_world))) = - 1" by code_simp
  have c': "calls (snd (snd (lsl_listen 128 [LNumber 2] exhausted_world))) = [SYS_kqueue]"
    by code_simp
  from i' e' have "sfd_init ?S1 exhausted_world = (24, S', w') \<and> (24::int) \<noteq> 0 \<or>
      (\<exists>S2 w2. sfd_init ?S1 exhausted_world = (0, S2, w2) \<and>
         sfd_update 128 S2 w2 = (24, S', w') \<and> (24::int) \<noteq> 0)" by simp
  from lsl_listen_failure_left_to_gc [OF a this] k' c'
  have 2: "fst (lsl_listen 128 [LNumber 2] exhausted_world) = Inl (ListenError 24)"
    "metatable (fst (snd (lsl_listen 128 [LNumber 2] exhausted_world))) = Some LSL_CLASS"
    "calls (snd (lsl__gc (udata (fst (snd (lsl_listen 128 [LNumber 2] exhausted_world))))
                 (snd (snd (lsl_listen 128 [LNumber 2] exhausted_world))))) =
     [SYS_kqueue, SYS_close (- 1)]"
    by simp_all
  from 1 c 2 c' show ?thesis by simp
qed


section \<open>The timeout after a drain\<close>

text \<open>
  C8: for every reachable listener and every drain of it that returns (the kernel having
  reported only signals that had been added to the queue), \<open>lsl_timeout\<close> on the state
  the drain leaves pushes 0 if and only if pending is not empty, and nil if and only if
  pending is empty.
\<close>

theorem lsl_timeout_after_drain:
  assumes "reachable maxsig S w" and "sfd_query maxsig S w = Some (e, S', w')"
    and "events_requested w'"
  shows "(lsl_timeout maxsig S' = Some 0 \<longleftrightarrow> pending S' \<noteq> {}) \<and>
         (lsl_timeout maxsig S' = None \<longleftrightarrow> pending S' = {})"
proof -
  from assms(1,2) have "reachable maxsig S' w'" by (rule reachable.drain)
  then have sub: "pending S' \<subseteq> scanned maxsig" using assms(3) by (rule reachable_pending_scanned)
  then have d: "sfd_diff maxsig (pending S') sigemptyset =
      (if pending S' = {} then 0 else Min (pending S'))" by (rule sfd_diff_least_pending)
  have "Min (pending S') \<noteq> 0" if "pending S' \<noteq> {}"
  proof -
    have "finite (pending S')" using sub scanned_finite by (rule finite_subset)
    then have "Min (pending S') \<in> pending S'" using that by (rule Min_in)
    with sub show ?thesis by (auto simp: scanned_def)
  qed
  with d show ?thesis by (auto simp: lsl_timeout_def)
qed

theorem lsl_timeout_after_drain_witness:
  "reachable 128 listened listened_world \<and>
   sfd_query 128 listened listened_world = Some (0, drained_once, drained_once_world) \<and>
   events_requested drained_once_world \<and>
   pending drained_once \<noteq> {} \<and> lsl_timeout 128 drained_once = Some 0 \<and>
   lsl_timeout 128 drained_once \<noteq> None"
proof -
  have e: "events_requested drained_once_world" by code_simp
  have p: "pending drained_once \<noteq> {}" by (simp add: drained_once_def)
  from lsl_timeout_after_drain [OF listened_reachable drained_once_query e] p
  have "lsl_timeout 128 drained_once = Some 0" by simp
  with listened_reachable drained_once_query e p show ?thesis by simp
qed

section \<open>Polling stays within desired\<close>

text \<open>
  C6, as stated: every successful reconciliation step ends with polling equal to desired.
  On the listener that \<open>signal.listen(2, 32)\<close> returns (128 signals, no call fails),
  \<open>sfd_update\<close> returns 0 with polling {2} and desired {2, 32}.
\<close>

theorem sfd_update_signal_32_counterexample:
  "fst (sfd_update 128 (udata (fst (snd (lsl_listen 128 [LNumber 2, LNumber 32] fresh_world))))
          (snd (snd (lsl_listen 128 [LNumber 2, LNumber 32] fresh_world)))) = 0 \<and>
   desired (fst (snd (sfd_update 128
      (udata (fst (snd (lsl_listen 128 [LNumber 2, LNumber 32] fresh_world))))
      (snd (snd (lsl_listen 128 [LNumber 2, LNumber 32] fresh_world)))))) = {2, 32} \<and>
   polling (fst (snd (sfd_update 128
      (udata (fst (snd (lsl_listen 128 [LNumber 2, LNumber 32] fresh_world))))
      (snd (snd (lsl_listen 128 [LNumber 2, LNumber 32] fresh_world)))))) = {2}"
  by code_simp

text \<open>
  C6, amended: in every reachable listener state polling is a subset of desired (and
  holds only signals in 1..31); and every \<open>sfd_update\<close> that returns 0 (every failed
  system call of the run having left a nonzero \<^verbatim>\<open>errno\<close>) ends with polling and desired
  holding the same signals among the valid signals 1..31, so that from a reachable state it
  ends with polling equal to the desired signals in 1..31.
\<close>

theorem reachable_polling_within_desired:
  "(reachable maxsig S w \<longrightarrow> polling S \<subseteq> desired S \<and> polling S \<subseteq> scanned maxsig) \<and>
   (sfd_update maxsig S w = (0, S', w') \<and> errno_set w' \<longrightarrow>
      polling S' \<inter> scanned maxsig = desired S' \<inter> scanned maxsig \<and>
      (reachable maxsig S w \<longrightarrow> polling S' = desired S' \<inter> scanned maxsig))"
proof (intro conjI impI)
  assume "reachable maxsig S w"
  from reachable_invariant [OF this]
  show "polling S \<subseteq> desired S" and "polling S \<subseteq> scanned maxsig"
    by (auto simp: listener_inv_def)
next
  assume u: "sfd_update maxsig S w = (0, S', w') \<and> errno_set w'"
  then have c: "polling S' \<inter> scanned maxsig = desired S \<inter> scanned maxsig"
    using sfd_update_converged [of maxsig S w 0 S' w'] by simp
  from u sfd_update_frame [of maxsig S w 0 S' w'] have d: "desired S' = desired S" by simp
  from c d show "polling S' \<inter> scanned maxsig = desired S' \<inter> scanned maxsig" by simp
  assume "reachable maxsig S w"
  from reachable_invariant [OF this] have "polling S \<subseteq> scanned maxsig"
    by (auto simp: listener_inv_def)
  moreover from u sfd_update_polling [of maxsig S w 0 S' w']
  have "polling S' - scanned maxsig = polling S - scanned maxsig" by simp
  ultimately show "polling S' = desired S' \<inter> scanned maxsig" using c d by auto
qed

theorem reachable_polling_within_desired_witness:
  "reachable 128 drained_once drained_once_world \<and>
   polling drained_once \<subseteq> desired drained_once \<and> polling drained_once \<subseteq> scanned 128 \<and>
   sfd_update 128 drained_once drained_once_world = (0, drained_once, drained_once_world) \<and>
   errno_set drained_once_world \<and>
   polling drained_once = desired drained_once \<inter> scanned 128"
proof -
  have z: "sfd_diff 128 (desired drained_once) (polling drained_once) = 0" by code_simp
  have u: "sfd_update 128 drained_once drained_once_world = (0, drained_once, drained_once_world)"
    using z by (rule sfd_update_settled)
  have e: "errno_set drained_once_world" by code_simp
  from reachable_polling_within_desired
    [of 128 drained_once drained_once_world drained_once drained_once_world]
    drained_once_reachable u e
  show ?thesis by simp
qed

section \<open>Draining order\<close>

text \<open>
  C4: on a reachable listener, where the kernel reported only signals that had been added
  to its queue, every \<open>lsl_wait\<close> that returns without an error returns the lowest pending
  signal, pending being taken after the drain, and removes it from pending; it returns
  nothing when pending is empty. When the poll that answers reports no event and no later
  call fails (no new delivery), \<open>lsl_wait\<close> does return, the pending set it picks from is
  the one before the call, and the listener it leaves meets the same conditions again: so
  successive calls return the pending signals in increasing order, and then nothing.
\<close>

theorem lsl_wait_lowest_pending_first:
  assumes "reachable maxsig S w"
  shows "(\<forall>r S' w'. lsl_wait maxsig S w = Some (Inr r, S', w') \<and> events_requested w' \<longrightarrow>
            (\<exists>S1. sfd_query maxsig S w = Some (0, S1, w') \<and> r = lowest (pending S1) \<and>
               pending S' = pending S1 - set_option r)) \<and>
         (events_requested w \<and> poll_answers w k \<and>
            (\<forall>t\<ge>length (calls w) + k. ret (kernel w t) = 0) \<longrightarrow>
            (\<exists>S' w'. lsl_wait maxsig S w = Some (Inr (lowest (pending S)), S', w') \<and>
               pending S' = pending S - set_option (lowest (pending S)) \<and>
               reachable maxsig S' w' \<and> events_requested w' \<and> poll_answers w' 0 \<and>
               (\<forall>t\<ge>length (calls w'). ret (kernel w' t) = 0)))"
proof (intro conjI allI impI)
  fix r S' w'
  assume "lsl_wait maxsig S w = Some (Inr r, S', w') \<and> events_requested w'"
  then show "\<exists>S1. sfd_query maxsig S w = Some (0, S1, w') \<and> r = lowest (pending S1) \<and>
      pending S' = pending S1 - set_option r"
    using lsl_wait_returns_lowest [OF assms, of r S' w'] by blast
next
  assume "events_requested w \<and> poll_answers w k \<and>
      (\<forall>t\<ge>length (calls w) + k. ret (kernel w t) = 0)"
  then show "\<exists>S' w'. lsl_wait maxsig S w = Some (Inr (lowest (pending S)), S', w') \<and>
      pending S' = pending S - set_option (lowest (pending S)) \<and>
      reachable maxsig S' w' \<and> events_requested w' \<and> poll_answers w' 0 \<and>
      (\<forall>t\<ge>length (calls w'). ret (kernel w' t) = 0)"
    using lsl_wait_quiet [OF assms, of k] by blast
qed

theorem lsl_wait_lowest_pending_first_witness:
  "reachable 128 drained_twice drained_twice_world \<and>
   events_requested drained_twice_world \<and> poll_answers drained_twice_world 0 \<and>
   pending drained_twice = {2, 15} \<and>
   (\<exists>S1 w1 S2 w2 S3 w3.
      lsl_wait 128 drained_twice drained_twice_world = Some (Inr (Some 2), S1, w1) \<and>
      pending S1 = {15} \<and>
      lsl_wait 128 S1 w1 = Some (Inr (Some 15), S2, w2) \<and> pending S2 = {} \<and>
      lsl_wait 128 S2 w2 = Some (Inr None, S3, w3) \<and> pending S3 = {})"
proof -
  have e0: "events_requested drained_twice_world" by code_simp
  have a0: "poll_answers drained_twice_world 0"
    by (simp add: poll_answers_def interrupted_def next_reply_def drained_twice_world_def
        busy_kernel_def)
  have q0: "\<forall>t\<ge>length (calls drained_twice_world) + 0. ret (kernel drained_twice_world t) = 0"
    by (simp add: drained_twice_world_def busy_kernel_def)
  have p0: "pending drained_twice = {2, 15}" by (simp add: drained_twice_def)
  have l0: "lowest {2, 15} = Some 2" "lowest {15} = Some 15" "lowest {} = None"
    "{2, 15} - {2::int} = {15}"
    by (simp_all add: lowest_def)
  from lsl_wait_lowest_pending_first [OF drained_twice_reachable, of 0] e0 a0 q0 p0 l0
  obtain S1 w1 where 1: "lsl_wait 128 drained_twice drained_twice_world = Some (Inr (Some 2), S1, w1)"
    "pending S1 = {15}" "reachable 128 S1 w1" "events_requested w1" "poll_answers w1 0"
    "\<forall>t\<ge>length (calls w1). ret (kernel w1 t) = 0"
    by auto
  from lsl_wait_lowest_pending_first [OF 1(3), of 0] 1(2,4,5,6) l0
  obtain S2 w2 where 2: "lsl_wait 128 S1 w1 = Some (Inr (Some 15), S2, w2)"
    "pending S2 = {}" "reachable 128 S2 w2" "events_requested w2" "poll_answers w2 0"
    "\<forall>t\<ge>length (calls w2). ret (kernel w2 t) = 0"
    by auto
  from lsl_wait_lowest_pending_first [OF 2(3), of 0] 2(2,4,5,6) l0
  obtain S3 w3 where 3: "lsl_wait 128 S2 w2 = Some (Inr None, S3, w3)" "pending S3 = {}"
    by auto
  from drained_twice_reachable e0 a0 p0 1(1,2) 2(1,2) 3 show ?thesis by blast
qed

end
